theory Spec2Isabelle
  imports Main "HOL-Library.Word"
begin

section \<open>Bytes, Python values and exceptions\<close>

type_synonym byte = "8 word"

text \<open>A Python \<open>str\<close> is the list of its code points.\<close>

type_synonym pystr = "nat list"

abbreviation NUL :: byte where "NUL \<equiv> 0"
abbreviation TAB :: byte where "TAB \<equiv> 9"
abbreviation LF :: byte where "LF \<equiv> 10"
abbreviation CR :: byte where "CR \<equiv> 13"
abbreviation SPACE :: byte where "SPACE \<equiv> 32"
abbreviation PLUS :: byte where "PLUS \<equiv> 43"
abbreviation DIGIT1 :: byte where "DIGIT1 \<equiv> 49"
abbreviation DIGIT3 :: byte where "DIGIT3 \<equiv> 51"
abbreviation AT :: byte where "AT \<equiv> 64"

datatype pyobj = PyNone | PyStr pystr | PyBytes "byte list" | PyInt int

datatype field = FName | FSequence | FQualities

text \<open>The messages of the \<open>ValueError\<close>s the module raises.\<close>

datatype value_error =
    NotAscii field
  | LengthsDoNotMatch nat nat
  | QualitiesNotSet
  | NegativeCount
  | BufferSizeTooSmall
  | ChrArgNotInRange

text \<open>
  The messages of \<open>FastqFormatError\<close>; the error also carries a line number. The first
  two messages quote the character found.
\<close>

datatype format_msg =
    ExpectedAt pystr
  | ExpectedPlus pystr
  | DescriptionsDontMatch
  | LengthsDiffer
  | NonAsciiFound
  | PrematureEOF

datatype exn =
    TypeError field
  | ValueError value_error
  | AttributeError
  | UnicodeEncodeError
  | AssertionError
  | StopIteration
  | FastqFormatError format_msg nat

section \<open>The record value: class Sequence\<close>

text \<open>\<open>PyUnicode_IS_COMPACT_ASCII\<close>: every code point is below 128.\<close>

definition PyUnicode_IS_COMPACT_ASCII :: "pystr \<Rightarrow> bool" where
  "PyUnicode_IS_COMPACT_ASCII s = list_all (\<lambda>c. c < 128) s"

text \<open>\<open>PyUnicode_1BYTE_DATA\<close> of a one-byte string: one byte per code point.\<close>

definition PyUnicode_1BYTE_DATA :: "pystr \<Rightarrow> byte list" where
  "PyUnicode_1BYTE_DATA s = map of_nat s"

record Sequence =
  name :: pystr
  sequence :: pystr
  qualities :: "pystr option"

text \<open>
  \<open>Sequence.__init__\<close>: the checks in the order of the source. The fields are
  stored by \<open>__cinit__\<close>; an object whose \<open>__init__\<close> raises is never returned.
\<close>

definition Sequence_init :: "pyobj \<Rightarrow> pyobj \<Rightarrow> pyobj \<Rightarrow> exn + Sequence" where
  "Sequence_init n s q =
     (case n of
        PyStr nm \<Rightarrow>
          if \<not> PyUnicode_IS_COMPACT_ASCII nm then Inl (ValueError (NotAscii FName))
          else (case s of
             PyStr sq \<Rightarrow>
               if \<not> PyUnicode_IS_COMPACT_ASCII sq then Inl (ValueError (NotAscii FSequence))
               else (case q of
                  PyNone \<Rightarrow> Inr \<lparr>name = nm, sequence = sq, qualities = None\<rparr>
                | PyStr ql \<Rightarrow>
                    if \<not> PyUnicode_IS_COMPACT_ASCII ql then Inl (ValueError (NotAscii FQualities))
                    else if length ql \<noteq> length sq
                      then Inl (ValueError (LengthsDoNotMatch (length ql) (length sq)))
                    else Inr \<lparr>name = nm, sequence = sq, qualities = Some ql\<rparr>
                | _ \<Rightarrow> Inl (TypeError FQualities))
           | _ \<Rightarrow> Inl (TypeError FSequence))
      | _ \<Rightarrow> Inl (TypeError FName))"


definition set_sequence :: "Sequence \<Rightarrow> pyobj \<Rightarrow> exn + Sequence" where
  "set_sequence self v =
     (case v of
        PyStr sq \<Rightarrow>
          if \<not> PyUnicode_IS_COMPACT_ASCII sq then Inl (ValueError (NotAscii FSequence))
          else Inr (self\<lparr>sequence := sq\<rparr>)
      | _ \<Rightarrow> Inl (TypeError FSequence))"


text \<open>
  \<open>qualities_as_bytes\<close> is \<open>self._qualities.encode('ascii')\<close>: on \<open>None\<close> the
  attribute lookup fails; on an ASCII string the bytes are the code points.
\<close>

definition qualities_as_bytes :: "Sequence \<Rightarrow> exn + byte list" where
  "qualities_as_bytes self =
     (case qualities self of
        None \<Rightarrow> Inl AttributeError
      | Some q \<Rightarrow>
          if PyUnicode_IS_COMPACT_ASCII q then Inr (PyUnicode_1BYTE_DATA q)
          else Inl UnicodeEncodeError)"

section \<open>The FASTQ serializer\<close>

text \<open>\<open>memcpy(dst + off, src, n)\<close> on a buffer held as a list.\<close>

definition memcpy :: "byte list \<Rightarrow> nat \<Rightarrow> byte list \<Rightarrow> nat \<Rightarrow> byte list" where
  "memcpy dst off src n = take off dst @ take n src @ drop (off + n) dst"

text \<open>
  \<open>create_fastq_record\<close>. \<open>PyBytes_FromStringAndSize(NULL, total_size)\<close> returns
  uninitialised memory: its contents are the parameter \<open>uninit\<close>.
\<close>

definition create_fastq_record ::
  "(nat \<Rightarrow> byte) \<Rightarrow> byte list \<Rightarrow> byte list \<Rightarrow> byte list \<Rightarrow> nat \<Rightarrow> nat \<Rightarrow> nat \<Rightarrow> bool \<Rightarrow> byte list"
where
  "create_fastq_record uninit nm sq ql name_length sequence_length qualities_length two_headers =
     (let total_size = name_length + sequence_length + qualities_length + 6;
          total_size = (if two_headers then total_size + name_length else total_size);
          retval = map uninit [0..<total_size];
          retval = retval[0 := AT];
          retval = memcpy retval 1 nm name_length;
          cursor = name_length + 1;
          retval = retval[cursor := LF]; cursor = cursor + 1;
          retval = memcpy retval cursor sq sequence_length;
          cursor = cursor + sequence_length;
          retval = retval[cursor := LF]; cursor = cursor + 1;
          retval = retval[cursor := PLUS]; cursor = cursor + 1;
          (retval, cursor) =
             (if two_headers
              then (memcpy retval cursor nm name_length, cursor + name_length)
              else (retval, cursor));
          retval = retval[cursor := LF]; cursor = cursor + 1;
          retval = memcpy retval cursor ql qualities_length;
          cursor = cursor + qualities_length;
          retval = retval[cursor := LF]
      in retval)"

text \<open>\<open>Sequence.fastq_bytes\<close>.\<close>

definition fastq_bytes :: "(nat \<Rightarrow> byte) \<Rightarrow> Sequence \<Rightarrow> bool \<Rightarrow> exn + byte list" where
  "fastq_bytes uninit self two_headers =
     (case qualities self of
        None \<Rightarrow> Inl (ValueError QualitiesNotSet)
      | Some q \<Rightarrow>
          Inr (create_fastq_record uninit
                 (PyUnicode_1BYTE_DATA (name self))
                 (PyUnicode_1BYTE_DATA (sequence self))
                 (PyUnicode_1BYTE_DATA q)
                 (length (name self)) (length (sequence self)) (length q)
                 two_headers))"

text \<open>The raw variant, \<open>BytesSequence\<close>: three byte strings.\<close>

record BytesSequence =
  bname :: "byte list"
  bsequence :: "byte list"
  bqualities :: "byte list"

definition BytesSequence_init ::
  "byte list \<Rightarrow> byte list \<Rightarrow> byte list \<Rightarrow> exn + BytesSequence" where
  "BytesSequence_init n s q =
     (if length q \<noteq> length s then Inl (ValueError (LengthsDoNotMatch (length q) (length s)))
      else Inr \<lparr>bname = n, bsequence = s, bqualities = q\<rparr>)"

definition bytes_fastq_bytes :: "(nat \<Rightarrow> byte) \<Rightarrow> BytesSequence \<Rightarrow> bool \<Rightarrow> byte list" where
  "bytes_fastq_bytes uninit self two_headers =
     create_fastq_record uninit (bname self) (bsequence self) (bqualities self)
       (length (bname self)) (length (bsequence self)) (length (bqualities self))
       two_headers"

text \<open>The wire format of one record, as the specification writes it.\<close>

definition fastq_wire :: "byte list \<Rightarrow> byte list \<Rightarrow> byte list \<Rightarrow> bool \<Rightarrow> byte list" where
  "fastq_wire nm sq ql two_headers =
     [AT] @ nm @ [LF] @ sq @ [LF] @ [PLUS] @ (if two_headers then nm else []) @ [LF] @ ql @ [LF]"

text \<open>One possible content of freshly allocated memory, for the examples.\<close>

definition zeroed :: "nat \<Rightarrow> byte" where
  "zeroed i = 0"

section \<open>The ID matcher\<close>

text \<open>
  The matcher works on C pointers. A buffer is the list of the bytes that belong to the
  object pointed to (for a name: its bytes followed by the terminating NUL that
  \<open>bytes\<close> and \<open>str\<close> objects carry); a read at any other index is outside the object.
  Indices are \<open>size_t\<close>, 64 bits wide, and wrap around.
\<close>

datatype memory_fault = OutOfBounds

type_synonym size_t = "64 word"

definition c_read :: "byte list \<Rightarrow> size_t \<Rightarrow> memory_fault + byte" where
  "c_read buf i = (if unat i < length buf then Inr (buf ! unat i) else Inl OutOfBounds)"

text \<open>
  \<open>strcspn(s, reject)\<close>: the number of bytes before the first byte that is NUL or in
  \<open>reject\<close>; it runs past the object when there is none.
\<close>

fun strcspn :: "byte list \<Rightarrow> byte list \<Rightarrow> memory_fault + nat" where
  "strcspn [] reject = Inl OutOfBounds"
| "strcspn (c # cs) reject =
     (if c = NUL \<or> c \<in> set reject then Inr 0
      else (case strcspn cs reject of Inl e \<Rightarrow> Inl e | Inr n \<Rightarrow> Inr (Suc n)))"

fun bytes_compare :: "byte list \<Rightarrow> byte list \<Rightarrow> int" where
  "bytes_compare (x # xs) (y # ys) =
     (if x = y then bytes_compare xs ys else int (unat x) - int (unat y))"
| "bytes_compare _ _ = 0"

text \<open>\<open>memcmp(a, b, n)\<close> reads \<open>n\<close> bytes of both objects.\<close>

definition memcmp :: "byte list \<Rightarrow> byte list \<Rightarrow> size_t \<Rightarrow> memory_fault + int" where
  "memcmp a b n =
     (if unat n \<le> length a \<and> unat n \<le> length b
      then Inr (bytes_compare (take (unat n) a) (take (unat n) b))
      else Inl OutOfBounds)"

text \<open>
  \<open>record_ids_match\<close>. The comparisons with \<open>b'1'\<close> and \<open>b'3'\<close> select the bytes
  49, 50 and 51 whether \<open>char\<close> is signed or not.
\<close>

definition record_ids_match :: "byte list \<Rightarrow> byte list \<Rightarrow> size_t \<Rightarrow> memory_fault + bool" where
  "record_ids_match header1 header2 header1_length =
     (case strcspn header2 [SPACE, TAB] of
        Inl e \<Rightarrow> Inl e
      | Inr n \<Rightarrow>
          (let id2_length = (of_nat n :: size_t) in
           if header1_length < id2_length then Inr False
           else (case c_read header1 id2_length of
              Inl e \<Rightarrow> Inl e
            | Inr end \<Rightarrow>
                if end \<noteq> NUL \<and> end \<noteq> SPACE \<and> end \<noteq> TAB then Inr False
                else (case c_read header1 (id2_length - 1) of
                   Inl e \<Rightarrow> Inl e
                 | Inr c1 \<Rightarrow>
                     (case c_read header2 (id2_length - 1) of
                        Inl e \<Rightarrow> Inl e
                      | Inr c2 \<Rightarrow>
                          (let id1endswithnumber = (DIGIT1 \<le> c1 \<and> c1 \<le> DIGIT3);
                               id2endswithnumber = (DIGIT1 \<le> c2 \<and> c2 \<le> DIGIT3);
                               id2_length =
                                 (if id1endswithnumber \<and> id2endswithnumber
                                  then id2_length - 1 else id2_length)
                           in (case memcmp header1 header2 id2_length of
                                 Inl e \<Rightarrow> Inl e
                               | Inr r \<Rightarrow> Inr (r = 0))))))))"

text \<open>\<open>PyBytes_AS_STRING\<close>: the bytes of the object and its terminating NUL.\<close>

definition PyBytes_AS_STRING :: "byte list \<Rightarrow> byte list" where
  "PyBytes_AS_STRING b = b @ [NUL]"

definition record_names_match_bytes :: "byte list \<Rightarrow> byte list \<Rightarrow> memory_fault + bool" where
  "record_names_match_bytes header1 header2 =
     record_ids_match (PyBytes_AS_STRING header1) (PyBytes_AS_STRING header2)
       (of_nat (length header1))"

text \<open>\<open>BytesSequence.is_mate\<close> and \<open>Sequence.is_mate\<close>.\<close>

definition bytes_is_mate :: "BytesSequence \<Rightarrow> BytesSequence \<Rightarrow> memory_fault + bool" where
  "bytes_is_mate self other =
     record_ids_match (PyBytes_AS_STRING (bname self)) (PyBytes_AS_STRING (bname other))
       (of_nat (length (bname self)))"

definition is_mate :: "Sequence \<Rightarrow> Sequence \<Rightarrow> memory_fault + bool" where
  "is_mate self other =
     record_ids_match (PyUnicode_1BYTE_DATA (name self) @ [NUL])
       (PyUnicode_1BYTE_DATA (name other) @ [NUL])
       (of_nat (length (name self)))"

text \<open>
  The same function as the processor runs it. A pointer is given by the memory around it:
  the bytes that lie before it and the bytes from it onwards. A read beside the name does
  not fault but returns the byte that the memory holds there; only a read outside the
  memory given is a fault. An index is added to the pointer modulo \<open>2^64\<close>, so the index
  \<open>2^64 - 1\<close> reaches the byte just before the pointer.
\<close>

definition peek :: "byte list \<times> byte list \<Rightarrow> size_t \<Rightarrow> memory_fault + byte" where
  "peek p i =
     (case p of (bytes_before, bytes_from) \<Rightarrow>
        if unat i < length bytes_from then Inr (bytes_from ! unat i)
        else if i \<noteq> 0 \<and> unat (- i) \<le> length bytes_before
          then Inr (bytes_before ! (length bytes_before - unat (- i)))
        else Inl OutOfBounds)"

text \<open>
  \<open>memcmp\<close> as the library runs it: byte by byte from the front, until two bytes differ
  or \<open>n\<close> bytes are done.
\<close>

fun memcmp_run :: "byte list \<Rightarrow> byte list \<Rightarrow> nat \<Rightarrow> memory_fault + int" where
  "memcmp_run a b 0 = Inr 0"
| "memcmp_run (x # xs) (y # ys) (Suc n) =
     (if x = y then memcmp_run xs ys n else Inr (int (unat x) - int (unat y)))"
| "memcmp_run a b (Suc n) = Inl OutOfBounds"

definition record_ids_match_mem ::
  "byte list \<times> byte list \<Rightarrow> byte list \<times> byte list \<Rightarrow> size_t \<Rightarrow> memory_fault + bool" where
  "record_ids_match_mem header1 header2 header1_length =
     (case strcspn (snd header2) [SPACE, TAB] of
        Inl e \<Rightarrow> Inl e
      | Inr n \<Rightarrow>
          (let id2_length = (of_nat n :: size_t) in
           if header1_length < id2_length then Inr False
           else (case peek header1 id2_length of
              Inl e \<Rightarrow> Inl e
            | Inr end \<Rightarrow>
                if end \<noteq> NUL \<and> end \<noteq> SPACE \<and> end \<noteq> TAB then Inr False
                else (case peek header1 (id2_length - 1) of
                   Inl e \<Rightarrow> Inl e
                 | Inr c1 \<Rightarrow>
                     (case peek header2 (id2_length - 1) of
                        Inl e \<Rightarrow> Inl e
                      | Inr c2 \<Rightarrow>
                          (let id1endswithnumber = (DIGIT1 \<le> c1 \<and> c1 \<le> DIGIT3);
                               id2endswithnumber = (DIGIT1 \<le> c2 \<and> c2 \<le> DIGIT3);
                               id2_length =
                                 (if id1endswithnumber \<and> id2endswithnumber
                                  then id2_length - 1 else id2_length)
                           in (case memcmp_run (snd header1) (snd header2) (unat id2_length) of
                                 Inl e \<Rightarrow> Inl e
                               | Inr r \<Rightarrow> Inr (r = 0))))))))"

text \<open>
  A \<open>bytes\<close> object where it lies in memory: \<open>before\<close> its buffer comes the head of the
  object, the buffer holds the \<open>content\<close> and the terminating NUL, and \<open>beyond\<close> that
  comes whatever the memory holds next. In CPython the last field of the head is the
  cached hash of the object, so on a little-endian machine the byte just before the
  buffer is the top byte of the hash.
\<close>

record bytes_in_memory =
  before :: "byte list"
  content :: "byte list"
  beyond :: "byte list"

text \<open>\<open>record_names_match_bytes\<close> on two such objects.\<close>

definition record_names_match_bytes_mem ::
  "bytes_in_memory \<Rightarrow> bytes_in_memory \<Rightarrow> memory_fault + bool" where
  "record_names_match_bytes_mem header1 header2 =
     record_ids_match_mem
       (before header1, PyBytes_AS_STRING (content header1) @ beyond header1)
       (before header2, PyBytes_AS_STRING (content header2) @ beyond header2)
       (of_nat (length (content header1)))"

section \<open>The paired-head synchronizer\<close>

text \<open>
  A read of a \<open>bytes\<close> or \<open>bytearray\<close> buffer through its data pointer: the object
  holds its bytes and one terminating NUL; any other position is outside the object.
\<close>

definition buffer_read :: "byte list \<Rightarrow> int \<Rightarrow> memory_fault + byte" where
  "buffer_read data pos =
     (if 0 \<le> pos \<and> pos < int (length data) then Inr (data ! nat pos)
      else if pos = int (length data) then Inr NUL
      else Inl OutOfBounds)"

text \<open>
  The inner loops of \<open>paired_fastq_heads\<close>:
  \<open>while pos < end and data[pos] != b'\n': pos += 1\<close>.
\<close>

function skip_to_newline :: "byte list \<Rightarrow> int \<Rightarrow> int \<Rightarrow> memory_fault + int" where
  "skip_to_newline data pos stop =
     (if pos < stop
      then (case buffer_read data pos of
              Inl e \<Rightarrow> Inl e
            | Inr c \<Rightarrow> if c \<noteq> LF then skip_to_newline data (pos + 1) stop else Inr pos)
      else Inr pos)"
  by pat_completeness auto
termination
  by (relation "measure (\<lambda>(data, pos, stop). nat (stop - pos))") auto

text \<open>
  The outer \<open>while True\<close> loop, with the local variables as arguments. It has no exit
  when an end is negative, so its result is an option: \<open>None\<close> stands for not returning.
\<close>

partial_function (option) paired_fastq_heads_loop ::
  "byte list \<Rightarrow> byte list \<Rightarrow> int \<Rightarrow> int \<Rightarrow> int \<Rightarrow> int \<Rightarrow> int \<Rightarrow> int \<Rightarrow> int
     \<Rightarrow> (memory_fault + int \<times> int) option"
where
  "paired_fastq_heads_loop data1 data2 end1 end2 pos1 pos2 linebreaks record_start1 record_start2 =
     (case skip_to_newline data1 pos1 end1 of
        Inl e \<Rightarrow> Some (Inl e)
      | Inr pos1 \<Rightarrow>
          if pos1 = end1 then Some (Inr (record_start1, record_start2))
          else (let pos1 = pos1 + 1 in
            case skip_to_newline data2 pos2 end2 of
              Inl e \<Rightarrow> Some (Inl e)
            | Inr pos2 \<Rightarrow>
                if pos2 = end2 then Some (Inr (record_start1, record_start2))
                else (let pos2 = pos2 + 1; linebreaks = linebreaks + 1 in
                  if linebreaks = 4
                  then paired_fastq_heads_loop data1 data2 end1 end2 pos1 pos2 0 pos1 pos2
                  else paired_fastq_heads_loop data1 data2 end1 end2 pos1 pos2 linebreaks
                         record_start1 record_start2)))"

declare paired_fastq_heads_loop.simps [code]

definition paired_fastq_heads ::
  "byte list \<Rightarrow> byte list \<Rightarrow> int \<Rightarrow> int \<Rightarrow> (memory_fault + int \<times> int) option" where
  "paired_fastq_heads buf1 buf2 end1 end2 =
     paired_fastq_heads_loop buf1 buf2 end1 end2 0 0 0 0 0"

text \<open>The number of line feeds in a byte string.\<close>

definition count_lf :: "byte list \<Rightarrow> nat" where
  "count_lf xs = count_list xs LF"

text \<open>
  What the docstring of \<open>paired_fastq_heads\<close> promises of a result: both lengths lie
  within the ends and fall on a line boundary, and the two prefixes hold the same number
  of lines, a multiple of four.
\<close>

definition heads_post :: "byte list \<Rightarrow> byte list \<Rightarrow> int \<Rightarrow> int \<Rightarrow> int \<Rightarrow> int \<Rightarrow> bool" where
  "heads_post b1 b2 e1 e2 l1 l2 \<longleftrightarrow>
     0 \<le> l1 \<and> l1 \<le> e1 \<and> 0 \<le> l2 \<and> l2 \<le> e2 \<and>
     count_lf (take (nat l1) b1) = count_lf (take (nat l2) b2) \<and>
     4 dvd count_lf (take (nat l1) b1) \<and>
     (l1 = 0 \<or> b1 ! nat (l1 - 1) = LF) \<and>
     (l2 = 0 \<or> b2 ! nat (l2 - 1) = LF) \<and>
     (l1 = 0 \<and> l2 = 0 \<or> 4 \<le> count_lf (take (nat l1) b1))"

text \<open>The invariant of the outer loop.\<close>

definition heads_inv ::
  "byte list \<Rightarrow> byte list \<Rightarrow> int \<Rightarrow> int \<Rightarrow> int \<Rightarrow> int \<Rightarrow> int \<Rightarrow> int \<Rightarrow> int \<Rightarrow> bool" where
  "heads_inv b1 b2 e1 e2 pos1 pos2 linebreaks rs1 rs2 \<longleftrightarrow>
     rs1 \<le> pos1 \<and> pos1 \<le> e1 \<and> rs2 \<le> pos2 \<and> pos2 \<le> e2 \<and>
     0 \<le> linebreaks \<and> linebreaks < 4 \<and>
     count_lf (take (nat pos1) b1) = count_lf (take (nat pos2) b2) \<and>
     int (count_lf (take (nat pos1) b1)) = int (count_lf (take (nat rs1) b1)) + linebreaks \<and>
     heads_post b1 b2 e1 e2 rs1 rs2"

section \<open>The streaming FASTQ parser: class FastqIter\<close>

text \<open>
  The stream source is any object with \<open>readinto\<close>. It is modelled by what is still
  to come, as the chunks in which the source will deliver it: \<open>readinto\<close> fills at most
  the space it is offered, from the first chunk that is not empty, and returns no bytes
  only when the stream is exhausted (or no space is offered).
\<close>

type_synonym stream = "byte list list"

definition readinto :: "stream \<Rightarrow> nat \<Rightarrow> byte list \<times> stream" where
  "readinto f n =
     (case dropWhile (\<lambda>c. c = []) f of
        [] \<Rightarrow> ([], [])
      | c # cs \<Rightarrow> (take n c, drop n c # cs))"

text \<open>Python slices \<open>b[i:j]\<close> and slice assignment \<open>b[i:j] = x\<close>, for \<open>0 \<le> i\<close>, \<open>0 \<le> j\<close>.\<close>

definition py_slice :: "'a list \<Rightarrow> nat \<Rightarrow> nat \<Rightarrow> 'a list" where
  "py_slice b i j = take (j - i) (drop i b)"

definition slice_assign :: "'a list \<Rightarrow> nat \<Rightarrow> nat \<Rightarrow> 'a list \<Rightarrow> 'a list" where
  "slice_assign b i j x = take i b @ x @ drop (max i j) b"

text \<open>
  The class the parser builds its records with: one of the two classes of the module,
  or a callable of the caller.
\<close>

datatype 'r sequence_class =
    Sequence_class
  | BytesSequence_class
  | Custom_class "pystr \<Rightarrow> pystr \<Rightarrow> pystr \<Rightarrow> exn + 'r"

text \<open>What \<open>__next__\<close> returns: the leading boolean, or a record.\<close>

datatype 'r yielded =
    FirstValue bool
  | SequenceRecord Sequence
  | BytesRecord BytesSequence
  | CustomRecord 'r

text \<open>
  The parser object. \<open>buf\<close>, \<open>buf_view\<close> and \<open>c_buf\<close> are three views of one
  bytearray and are reassigned together, so the model has one field for them. The cursors
  and counts are \<open>Py_ssize_t\<close> values that never go below 0.
\<close>

record 'r FastqIter =
  buffer_size :: nat
  buf :: "byte list"
  sequence_class :: "'r sequence_class"
  save_as_bytes :: bool
  use_custom_class :: bool
  extra_newline :: bool
  yielded_two_headers :: bool
  eof :: bool
  "file" :: stream
  bufend :: nat
  record_start :: nat
  number_of_records :: nat

text \<open>\<open>FastqIter.__cinit__\<close>; \<open>bytearray(buffer_size)\<close> refuses a negative size.\<close>

definition FastqIter_cinit :: "stream \<Rightarrow> 'r sequence_class \<Rightarrow> int \<Rightarrow> exn + 'r FastqIter" where
  "FastqIter_cinit f cls sz =
     (if sz < 0 then Inl (ValueError NegativeCount)
      else if sz < 1 then Inl (ValueError BufferSizeTooSmall)
      else Inr \<lparr>buffer_size = nat sz,
                buf = replicate (nat sz) 0,
                sequence_class = cls,
                save_as_bytes = (case cls of BytesSequence_class \<Rightarrow> True | _ \<Rightarrow> False),
                use_custom_class = (case cls of Custom_class c \<Rightarrow> True | _ \<Rightarrow> False),
                extra_newline = False,
                yielded_two_headers = False,
                eof = False,
                file = f,
                bufend = 0,
                record_start = 0,
                number_of_records = 0\<rparr>)"

text \<open>
  \<open>FastqIter._read_into_buffer\<close>, in the three blocks of the method.

  First block: make room. A leftover that fills the whole buffer doubles the buffer;
  otherwise the leftover is moved to the front. The result is the object and the local
  variable \<open>bufstart\<close>.
\<close>

definition make_room :: "'r FastqIter \<Rightarrow> 'r FastqIter \<times> nat" where
  "make_room self =
     (if record_start self = 0 \<and> bufend self = length (buf self)
      then (let buffer_size' = buffer_size self * 2;
                prev_buf = buf self
            in (self\<lparr>buffer_size := buffer_size',
                      buf := slice_assign (replicate buffer_size' 0) 0 (bufend self) prev_buf\<rparr>,
                bufend self))
      else (let bufstart = bufend self - record_start self
            in (self\<lparr>buf := slice_assign (buf self) 0 bufstart
                            (py_slice (buf self) (record_start self) (bufend self))\<rparr>,
                bufstart)))"

text \<open>
  Second block: \<open>self.bufend = self.file.readinto(self.buf_view[bufstart:]) + bufstart\<close>.
\<close>

definition fill_from_file :: "'r FastqIter \<Rightarrow> nat \<Rightarrow> 'r FastqIter" where
  "fill_from_file self bufstart =
     (let (data, f) = readinto (file self) (length (buf self) - bufstart)
      in self\<lparr>file := f,
               buf := slice_assign (buf self) bufstart (bufstart + length data) data,
               bufend := length data + bufstart\<rparr>)"

text \<open>
  Third block: the end of the file, when nothing was read. \<open>record_start\<close> is reset by
  the last statement of the method, which a raise does not reach.
\<close>

definition end_of_file :: "'r FastqIter \<Rightarrow> nat \<Rightarrow> nat \<Rightarrow> exn option \<times> 'r FastqIter" where
  "end_of_file self bufstart last_read_position =
     (if bufstart > 0 \<and> buf self ! (bufstart - 1) \<noteq> LF
      then (None, self\<lparr>buf := (buf self)[bufstart := LF],
                        bufend := bufend self + 1,
                        extra_newline := True,
                        record_start := 0\<rparr>)
      else if last_read_position > record_start self
      then (let last_read_position =
                  (if extra_newline self then last_read_position - 1 else last_read_position);
                lines = count_lf (py_slice (buf self) (record_start self) last_read_position)
            in (Some (FastqFormatError PrematureEOF (number_of_records self * 4 + lines)),
                self))
      else (None, self\<lparr>eof := True, record_start := 0\<rparr>))"

text \<open>
  The method. The result is the exception raised, if any, and the object as the method
  leaves it.
\<close>

definition read_into_buffer :: "'r FastqIter \<Rightarrow> exn option \<times> 'r FastqIter" where
  "read_into_buffer self0 =
     (let last_read_position = bufend self0;
          (self, bufstart) = make_room self0
      in if \<not> bufstart < length (buf self) then (Some AssertionError, self)
         else (let self = fill_from_file self bufstart
               in if bufstart = bufend self
                  then end_of_file self bufstart last_read_position
                  else (None, self\<lparr>record_start := 0\<rparr>)))"

text \<open>
  \<open>memchr(c_buf + start, c, n)\<close>, as the index into \<open>c_buf\<close> of the byte found.
\<close>

fun memchr :: "byte list \<Rightarrow> nat \<Rightarrow> byte \<Rightarrow> nat \<Rightarrow> nat option" where
  "memchr b start c 0 = None"
| "memchr b start c (Suc n) = (if b ! start = c then Some start else memchr b (Suc start) c n)"

text \<open>\<open>strncmp(a, b, n)\<close>: at most \<open>n\<close> bytes are compared, and none behind a NUL.\<close>

fun strncmp :: "byte list \<Rightarrow> byte list \<Rightarrow> nat \<Rightarrow> int" where
  "strncmp (x # xs) (y # ys) (Suc n) =
     (if x \<noteq> y then int (unat x) - int (unat y)
      else if x = NUL then 0
      else strncmp xs ys n)"
| "strncmp _ _ _ = 0"

text \<open>
  Modelled from the spec: \<open>string_is_ascii\<close> is declared in \<open>ascii_check.h\<close>, which is
  not among the sources. The specification of the ASCII validator: true iff every byte
  in the range is below 128; true on the empty range.
\<close>

definition string_is_ascii :: "byte list \<Rightarrow> bool" where
  "string_is_ascii s = list_all (\<lambda>c. c < 128) s"

text \<open>\<open>PyUnicode_New(n, 127)\<close> filled by \<open>memcpy\<close>: one code point per byte.\<close>

definition ascii_str :: "byte list \<Rightarrow> pystr" where
  "ascii_str b = map unat b"

text \<open>
  \<open>self.sequence_class(name, sequence, qualities)\<close>: calling a class of the module runs
  its constructor, which for \<open>BytesSequence\<close> refuses \<open>str\<close> arguments.
\<close>

definition call_sequence_class ::
  "'r sequence_class \<Rightarrow> pystr \<Rightarrow> pystr \<Rightarrow> pystr \<Rightarrow> exn + 'r yielded" where
  "call_sequence_class cls n s q =
     (case cls of
        Sequence_class \<Rightarrow>
          (case Sequence_init (PyStr n) (PyStr s) (PyStr q) of
             Inl e \<Rightarrow> Inl e | Inr r \<Rightarrow> Inr (SequenceRecord r))
      | BytesSequence_class \<Rightarrow> Inl (TypeError FName)
      | Custom_class c \<Rightarrow>
          (case c n s q of Inl e \<Rightarrow> Inl e | Inr r \<Rightarrow> Inr (CustomRecord r)))"

text \<open>
  \<open>chr(c)\<close> of a C \<open>char\<close>, which the messages for a missing \<open>@\<close> or \<open>+\<close> quote.
  \<open>c_buf\<close> is a \<open>char *\<close> and \<open>char\<close> is a signed type (as on x86-64): a byte above
  127 is a negative number, which \<open>chr\<close> refuses with a \<open>ValueError\<close>.
\<close>

definition chr :: "byte \<Rightarrow> exn + pystr" where
  "chr c = (if sint c < 0 then Inl (ValueError ChrArgNotInRange) else Inr [nat (sint c)])"

text \<open>
  The body of \<open>__next__\<close> from the point where the four newlines of a record have been
  found: the checks, the first value, and the record. The result is the exception raised
  or the value returned, and the object as it is left. The lengths are natural numbers:
  behind the first two checks none of the differences is negative (lemma
  \<open>lengths_not_cut_off\<close>). The message of an error is built before the error is raised,
  so a \<open>chr\<close> that fails takes the place of the format error. A failed allocation,
  \<open>MemoryError\<close>, is not modelled.
\<close>

definition emit_record ::
  "'r FastqIter \<Rightarrow> nat \<Rightarrow> nat \<Rightarrow> nat \<Rightarrow> nat \<Rightarrow> (exn + 'r yielded) \<times> 'r FastqIter" where
  "emit_record self name_end sequence_end second_header_end qualities_end =
     (let c_buf = buf self;
          sequence_start = name_end + 1;
          second_header_start = sequence_end + 1;
          qualities_start = second_header_end + 1
      in if c_buf ! record_start self \<noteq> AT
         then (case chr (c_buf ! record_start self) of
                 Inl e \<Rightarrow> (Inl e, self)
               | Inr found \<Rightarrow>
                   (Inl (FastqFormatError (ExpectedAt found) (number_of_records self * 4)),
                    self))
         else if c_buf ! second_header_start \<noteq> PLUS
         then (case chr (c_buf ! second_header_start) of
                 Inl e \<Rightarrow> (Inl e, self)
               | Inr found \<Rightarrow>
                   (Inl (FastqFormatError (ExpectedPlus found) (number_of_records self * 4 + 2)),
                    self))
         else
           (let name_start = record_start self + 1;
                second_header_start = second_header_start + 1;
                name_length = name_end - name_start;
                sequence_length = sequence_end - sequence_start;
                second_header_length = second_header_end - second_header_start;
                qualities_length = qualities_end - qualities_start;
                name_length =
                  (if c_buf ! (name_end - 1) = CR then name_length - 1 else name_length);
                sequence_length =
                  (if c_buf ! (sequence_end - 1) = CR then sequence_length - 1
                   else sequence_length);
                second_header_length =
                  (if c_buf ! (second_header_end - 1) = CR then second_header_length - 1
                   else second_header_length);
                qualities_length =
                  (if c_buf ! (qualities_end - 1) = CR then qualities_length - 1
                   else qualities_length)
            in if second_header_length \<noteq> 0 \<and>
                  (name_length \<noteq> second_header_length \<or>
                   strncmp (drop second_header_start c_buf) (drop name_start c_buf)
                     second_header_length \<noteq> 0)
               then (Inl (FastqFormatError DescriptionsDontMatch
                            (number_of_records self * 4 + 2)), self)
               else if qualities_length \<noteq> sequence_length
               then (Inl (FastqFormatError LengthsDiffer
                            (number_of_records self * 4 + 3)), self)
               else if number_of_records self = 0 \<and> \<not> yielded_two_headers self
               then (Inr (FirstValue (second_header_length \<noteq> 0)),
                     self\<lparr>yielded_two_headers := True\<rparr>)
               else
                 (let advanced = self\<lparr>number_of_records := number_of_records self + 1,
                                       record_start := qualities_end + 1\<rparr>
                  in if save_as_bytes self
                     then (Inr (BytesRecord
                             \<lparr>bname = py_slice c_buf name_start (name_start + name_length),
                              bsequence =
                                py_slice c_buf sequence_start (sequence_start + sequence_length),
                              bqualities =
                                py_slice c_buf qualities_start
                                  (qualities_start + qualities_length)\<rparr>),
                           advanced)
                     else if \<not> string_is_ascii (py_slice c_buf (record_start self) qualities_end)
                     then (Inl (FastqFormatError NonAsciiFound (number_of_records self * 4)),
                           self)
                     else
                       (let nm = ascii_str
                                   (py_slice c_buf name_start (name_start + name_length));
                            sq = ascii_str
                                   (py_slice c_buf sequence_start
                                      (sequence_start + sequence_length));
                            ql = ascii_str
                                   (py_slice c_buf qualities_start
                                      (qualities_start + qualities_length))
                        in if use_custom_class self
                           then (case call_sequence_class (sequence_class self) nm sq ql of
                                   Inl e \<Rightarrow> (Inl e, self)
                                 | Inr ret_val \<Rightarrow> (Inr ret_val, advanced))
                           else (Inr (SequenceRecord
                                        \<lparr>name = nm, sequence = sq, qualities = Some ql\<rparr>),
                                 advanced)))))"

text \<open>
  The head of the loop of \<open>__next__\<close>: four calls of \<open>memchr\<close>, each starting behind
  the newline found by the one before. The result is the positions \<open>name_end\<close>,
  \<open>sequence_end\<close>, \<open>second_header_end\<close> and \<open>qualities_end\<close>, or \<open>None\<close> as soon as
  one call returns \<open>NULL\<close>; the loop then reads more data and starts over.
\<close>

definition four_newlines :: "byte list \<Rightarrow> nat \<Rightarrow> nat \<Rightarrow> (nat \<times> nat \<times> nat \<times> nat) option" where
  "four_newlines b start stop =
     (case memchr b start LF (stop - start) of
        None \<Rightarrow> None
      | Some name_end \<Rightarrow>
          (case memchr b (name_end + 1) LF (stop - (name_end + 1)) of
             None \<Rightarrow> None
           | Some sequence_end \<Rightarrow>
               (case memchr b (sequence_end + 1) LF (stop - (sequence_end + 1)) of
                  None \<Rightarrow> None
                | Some second_header_end \<Rightarrow>
                    (case memchr b (second_header_end + 1) LF
                            (stop - (second_header_end + 1)) of
                       None \<Rightarrow> None
                     | Some qualities_end \<Rightarrow>
                         Some (name_end, sequence_end, second_header_end, qualities_end)))))"

text \<open>
  \<open>FastqIter.__next__\<close>: the \<open>while True\<close> loop. Each of the four \<open>NULL\<close> results
  leads to the same two statements, \<open>self._read_into_buffer()\<close> and \<open>continue\<close>. The
  loop is a partial function: \<open>None\<close> stands for a call that does not return.
\<close>

partial_function (option) fastq_next ::
  "'r FastqIter \<Rightarrow> ((exn + 'r yielded) \<times> 'r FastqIter) option"
where
  "fastq_next self =
     (if eof self then Some (Inl StopIteration, self)
      else
        (case four_newlines (buf self) (record_start self) (bufend self) of
           None \<Rightarrow>
             (case read_into_buffer self of
                (Some e, self) \<Rightarrow> Some (Inl e, self)
              | (None, self) \<Rightarrow> fastq_next self)
         | Some (name_end, sequence_end, second_header_end, qualities_end) \<Rightarrow>
             Some (emit_record self name_end sequence_end second_header_end qualities_end)))"

declare fastq_next.simps [code]

text \<open>
  A caller that invokes \<open>__next__\<close> \<open>n\<close> times in a row and keeps what each call
  returned or raised; \<open>None\<close> if one of the calls does not return.
\<close>

fun outcomes :: "nat \<Rightarrow> 'r FastqIter \<Rightarrow> (exn + 'r yielded) list option" where
  "outcomes 0 self = Some []"
| "outcomes (Suc n) self =
     (case fastq_next self of
        None \<Rightarrow> None
      | Some (r, self') \<Rightarrow>
          (case outcomes n self' of None \<Rightarrow> None | Some rs \<Rightarrow> Some (r # rs)))"

text \<open>\<open>FastqIter(file, sequence_class, buffer_size)\<close> followed by \<open>n\<close> calls.\<close>

definition parse :: "stream \<Rightarrow> 'r sequence_class \<Rightarrow> int \<Rightarrow> nat \<Rightarrow> (exn + 'r yielded) list option" where
  "parse f cls sz n =
     (case FastqIter_cinit f cls sz of Inl e \<Rightarrow> Some [Inl e] | Inr self \<Rightarrow> outcomes n self)"

text \<open>The offset within a record of the line that a format error is about.\<close>

fun format_offset :: "format_msg \<Rightarrow> nat" where
  "format_offset (ExpectedAt c) = 0"
| "format_offset NonAsciiFound = 0"
| "format_offset (ExpectedPlus c) = 2"
| "format_offset DescriptionsDontMatch = 2"
| "format_offset LengthsDiffer = 3"
| "format_offset PrematureEOF = 0"

text \<open>The records among the values that the parser returned.\<close>

fun is_record :: "'r yielded \<Rightarrow> bool" where
  "is_record (FirstValue b) = False"
| "is_record _ = True"

text \<open>
  What one call of \<open>__next__\<close> does to the record counter, and the line it reports
  with a format error other than a premature end of file.
\<close>

definition call_ok :: "'r FastqIter \<Rightarrow> (exn + 'r yielded) \<times> 'r FastqIter \<Rightarrow> bool" where
  "call_ok s y \<longleftrightarrow> (case y of (r, s') \<Rightarrow>
         use_custom_class s' = use_custom_class s \<and>
         (case r of
            Inl e \<Rightarrow> number_of_records s' = number_of_records s \<and>
               (\<forall>m l. e = FastqFormatError m l \<longrightarrow> m \<noteq> PrematureEOF \<longrightarrow>
                  l = number_of_records s * 4 + format_offset m)
          | Inr v \<Rightarrow> number_of_records s' =
               number_of_records s + (if is_record v then 1 else 0)))"

text \<open>
  The object after one or more reads at the start of a record: a buffer of size \<open>z\<close>
  with content \<open>b\<close>, the rest \<open>f\<close> of the stream, and the end \<open>e\<close> of the data.
\<close>

definition refilled ::
  "'r FastqIter \<Rightarrow> nat \<Rightarrow> byte list \<Rightarrow> stream \<Rightarrow> nat \<Rightarrow> 'r FastqIter" where
  "refilled s z b f e = s\<lparr>buffer_size := z, buf := b, file := f, bufend := e, record_start := 0\<rparr>"

text \<open>
  The parser is loading the input \<open>F\<close>: nothing has been consumed yet, the buffer holds
  a prefix of \<open>F\<close> and the stream holds the rest.
\<close>

definition loading :: "'r FastqIter \<Rightarrow> byte list \<Rightarrow> bool" where
  "loading s F \<longleftrightarrow>
     \<not> eof s \<and> record_start s = 0 \<and> bufend s \<le> length (buf s) \<and>
     length (buf s) = buffer_size s \<and> 0 < buffer_size s \<and>
     take (bufend s) (buf s) @ concat (file s) = F"

text \<open>
  The cursors of the parser are in range: the pending data lies within the buffer. In
  such a state none of the subtractions of cursors above is cut off at 0.
\<close>

definition cursors_ok :: "'r FastqIter \<Rightarrow> bool" where
  "cursors_ok s \<longleftrightarrow>
     record_start s \<le> bufend s \<and> bufend s \<le> length (buf s) \<and>
     length (buf s) = buffer_size s \<and> 0 < buffer_size s"

section \<open>Serializer exactness\<close>

lemma length_memcpy:
  "off + n \<le> length dst \<Longrightarrow> length src = n \<Longrightarrow> length (memcpy dst off src n) = length dst"
  by (simp add: memcpy_def)

lemma take_memcpy:
  "take off dst = p \<Longrightarrow> length src = n \<Longrightarrow> off + n \<le> length dst \<Longrightarrow>
   take (off + n) (memcpy dst off src n) = p @ src"
  by (auto simp: memcpy_def)

lemma take_store:
  "take c xs = p \<Longrightarrow> c < length xs \<Longrightarrow> take (Suc c) (xs[c := v]) = p @ [v]"
  by (simp add: take_Suc_conv_app_nth)

lemma create_fastq_record_wire:
  assumes "length nm = nl" "length sq = sl" "length ql = qll"
  shows "create_fastq_record uninit nm sq ql nl sl qll th = fastq_wire nm sq ql th"
proof -
  define hl where "hl = (if th then nl else 0)"
  define hd2 where "hd2 = (if th then nm else [])"
  define total where "total = nl + sl + qll + 6 + hl"
  define r0 where "r0 = map uninit [0..<total]"
  define r1 where "r1 = r0[0 := AT]"
  define r2 where "r2 = memcpy r1 1 nm nl"
  define r3 where "r3 = r2[nl + 1 := LF]"
  define r4 where "r4 = memcpy r3 (nl + 2) sq sl"
  define r5 where "r5 = r4[nl + 2 + sl := LF]"
  define r6 where "r6 = r5[nl + 2 + sl + 1 := PLUS]"
  define r7 where "r7 = (if th then memcpy r6 (nl + 2 + sl + 2) nm nl else r6)"
  define c7 where "c7 = nl + 2 + sl + 2 + hl"
  define r8 where "r8 = r7[c7 := LF]"
  define r9 where "r9 = memcpy r8 (c7 + 1) ql qll"
  define r10 where "r10 = r9[c7 + 1 + qll := LF]"
  have run: "create_fastq_record uninit nm sq ql nl sl qll th = r10"
    unfolding r10_def r9_def r8_def r7_def c7_def r6_def r5_def r4_def r3_def r2_def r1_def
      r0_def total_def hl_def create_fastq_record_def Let_def
    by (cases th) simp_all
  have l0: "length r0 = total" by (simp add: r0_def)
  have l1: "length r1 = total" by (simp add: r1_def l0)
  have l2: "length r2 = total" unfolding r2_def using assms l1
    by (subst length_memcpy) (simp_all add: total_def)
  have l3: "length r3 = total" by (simp add: r3_def l2)
  have l4: "length r4 = total" unfolding r4_def using assms l3
    by (subst length_memcpy) (simp_all add: total_def)
  have l5: "length r5 = total" by (simp add: r5_def l4)
  have l6: "length r6 = total" by (simp add: r6_def l5)
  have l7: "length r7 = total" unfolding r7_def using assms l6
    by (simp add: length_memcpy total_def hl_def)
  have l8: "length r8 = total" by (simp add: r8_def l7)
  have l9: "length r9 = total" unfolding r9_def using assms l8
    by (subst length_memcpy) (simp_all add: total_def c7_def)
  have l10: "length r10 = total" by (simp add: r10_def l9)
  have t1: "take (Suc 0) r1 = [] @ [AT]"
    unfolding r1_def by (rule take_store) (simp_all add: l0 total_def)
  have t2: "take (1 + nl) r2 = [AT] @ nm"
    unfolding r2_def using t1 assms l1 by (intro take_memcpy) (simp_all add: total_def)
  have t3: "take (Suc (nl + 1)) r3 = ([AT] @ nm) @ [LF]"
    unfolding r3_def using t2 l2 by (intro take_store) (simp_all add: total_def add.commute)
  have t4: "take (nl + 2 + sl) r4 = (([AT] @ nm) @ [LF]) @ sq"
    unfolding r4_def using t3 assms l3 by (intro take_memcpy) (simp_all add: total_def)
  have t5: "take (Suc (nl + 2 + sl)) r5 = ((([AT] @ nm) @ [LF]) @ sq) @ [LF]"
    unfolding r5_def using t4 l4 by (intro take_store) (simp_all add: total_def)
  have t6: "take (Suc (nl + 2 + sl + 1)) r6 = (((([AT] @ nm) @ [LF]) @ sq) @ [LF]) @ [PLUS]"
    unfolding r6_def using t5 l5 by (intro take_store) (simp_all add: total_def)
  have t7: "take c7 r7 = ((((([AT] @ nm) @ [LF]) @ sq) @ [LF]) @ [PLUS]) @ hd2"
  proof (cases th)
    case True
    have "take (nl + 2 + sl + 2 + nl) (memcpy r6 (nl + 2 + sl + 2) nm nl)
          = ((((([AT] @ nm) @ [LF]) @ sq) @ [LF]) @ [PLUS]) @ nm"
      using t6 assms l6 True by (intro take_memcpy) (simp_all add: total_def hl_def)
    then show ?thesis using True by (simp add: r7_def c7_def hl_def hd2_def)
  next
    case False
    then show ?thesis using t6 by (simp add: r7_def c7_def hl_def hd2_def)
  qed
  have t8: "take (Suc c7) r8 = (((((([AT] @ nm) @ [LF]) @ sq) @ [LF]) @ [PLUS]) @ hd2) @ [LF]"
    unfolding r8_def using t7 l7 by (intro take_store) (simp_all add: total_def c7_def)
  have t9: "take (c7 + 1 + qll) r9
            = ((((((([AT] @ nm) @ [LF]) @ sq) @ [LF]) @ [PLUS]) @ hd2) @ [LF]) @ ql"
    unfolding r9_def using t8 assms l8 by (intro take_memcpy) (simp_all add: total_def c7_def)
  have t10: "take (Suc (c7 + 1 + qll)) r10
            = (((((((([AT] @ nm) @ [LF]) @ sq) @ [LF]) @ [PLUS]) @ hd2) @ [LF]) @ ql) @ [LF]"
    unfolding r10_def using t9 l9 by (intro take_store) (simp_all add: total_def c7_def)
  have "Suc (c7 + 1 + qll) = total" by (simp add: c7_def total_def)
  with t10 l10
  have "r10 = (((((((([AT] @ nm) @ [LF]) @ sq) @ [LF]) @ [PLUS]) @ hd2) @ [LF]) @ ql) @ [LF]"
    by simp
  then show ?thesis by (simp add: run fastq_wire_def hd2_def)
qed

text \<open>
  C2. For every record whose name, sequence and qualities are present,
  \<open>fastq_bytes(two_headers)\<close> returns a buffer of exactly
  \<open>1 + |name| + 1 + |sequence| + 1 + 1 + (|name| if two_headers else 0) + 1 + |qualities| + 1\<close>
  bytes holding \<open>'@'\<close>, the name, a newline, the sequence, a newline, \<open>'+'\<close>, the name
  again when \<open>two_headers\<close> is set, a newline, the qualities and a newline, whatever
  the fresh buffer held before. The same holds for the raw variant.
\<close>

theorem fastq_bytes_exact:
  "fastq_bytes uninit \<lparr>name = n, sequence = s, qualities = Some q\<rparr> two_headers =
     Inr ([AT] @ PyUnicode_1BYTE_DATA n @ [LF] @ PyUnicode_1BYTE_DATA s @ [LF] @ [PLUS] @
          (if two_headers then PyUnicode_1BYTE_DATA n else []) @ [LF] @
          PyUnicode_1BYTE_DATA q @ [LF])
   \<and> length ([AT] @ PyUnicode_1BYTE_DATA n @ [LF] @ PyUnicode_1BYTE_DATA s @ [LF] @ [PLUS] @
          (if two_headers then PyUnicode_1BYTE_DATA n else []) @ [LF] @
          PyUnicode_1BYTE_DATA q @ [LF])
       = 1 + length n + 1 + length s + 1 + 1 + (if two_headers then length n else 0) + 1
         + length q + 1
   \<and> bytes_fastq_bytes uninit \<lparr>bname = bn, bsequence = bs, bqualities = bq\<rparr> two_headers =
       [AT] @ bn @ [LF] @ bs @ [LF] @ [PLUS] @ (if two_headers then bn else []) @ [LF] @
       bq @ [LF]
   \<and> length (bytes_fastq_bytes uninit \<lparr>bname = bn, bsequence = bs, bqualities = bq\<rparr> two_headers)
       = 1 + length bn + 1 + length bs + 1 + 1 + (if two_headers then length bn else 0) + 1
         + length bq + 1"
proof -
  have len: "length (PyUnicode_1BYTE_DATA x) = length x" for x
    by (simp add: PyUnicode_1BYTE_DATA_def)
  have a: "create_fastq_record uninit (PyUnicode_1BYTE_DATA n) (PyUnicode_1BYTE_DATA s)
             (PyUnicode_1BYTE_DATA q) (length n) (length s) (length q) th
           = fastq_wire (PyUnicode_1BYTE_DATA n) (PyUnicode_1BYTE_DATA s)
               (PyUnicode_1BYTE_DATA q) th" for th
    by (rule create_fastq_record_wire) (simp_all add: len)
  have b: "create_fastq_record uninit bn bs bq (length bn) (length bs) (length bq) th
           = fastq_wire bn bs bq th" for th
    by (rule create_fastq_record_wire) simp_all
  show ?thesis
    by (simp add: fastq_bytes_def bytes_fastq_bytes_def a b fastq_wire_def len)
qed

section \<open>Missing qualities\<close>

text \<open>
  C9, as the code has it. On a record without qualities, \<open>fastq_bytes\<close> fails with its
  own \<open>ValueError\<close> and \<open>qualities_as_bytes\<close> fails with the \<open>AttributeError\<close> of
  \<open>None.encode\<close>. Neither method writes to the record.
\<close>

theorem missing_qualities_errors:
  "qualities r = None \<Longrightarrow>
   qualities_as_bytes r = Inl AttributeError \<and>
   fastq_bytes uninit r two_headers = Inl (ValueError QualitiesNotSet)"
  by (simp add: qualities_as_bytes_def fastq_bytes_def)

theorem missing_qualities_errors_witness:
  "qualities \<lparr>name = [114], sequence = [65], qualities = None\<rparr> = None \<and>
   qualities_as_bytes \<lparr>name = [114], sequence = [65], qualities = None\<rparr> = Inl AttributeError \<and>
   fastq_bytes zeroed \<lparr>name = [114], sequence = [65], qualities = None\<rparr> True
     = Inl (ValueError QualitiesNotSet)"
  using missing_qualities_errors [of "\<lparr>name = [114], sequence = [65], qualities = None\<rparr>" zeroed True]
  by simp

text \<open>The two methods do not fail with one and the same error.\<close>

theorem missing_qualities_not_one_error:
  "qualities_as_bytes \<lparr>name = [114], sequence = [65], qualities = None\<rparr>
     \<noteq> fastq_bytes zeroed \<lparr>name = [114], sequence = [65], qualities = None\<rparr> False"
  by (simp add: qualities_as_bytes_def fastq_bytes_def)

section \<open>Field replacement\<close>




section \<open>The ID matcher\<close>

lemma strcspn_bound:
  "strcspn s r = Inr k \<Longrightarrow> k < length s \<and> (s ! k = NUL \<or> s ! k \<in> set r)"
  by (induction s arbitrary: k) (auto split: if_splits sum.splits)

lemma strcspn_terminated: "\<exists>k. strcspn (n @ [NUL]) r = Inr k"
  by (induction n) auto

lemma strcspn_pos:
  "strcspn (c # cs) r = Inr k \<Longrightarrow> c \<noteq> NUL \<Longrightarrow> c \<notin> set r \<Longrightarrow> 0 < k"
  by (auto split: sum.splits)

lemma bytes_compare_same: "bytes_compare xs xs = 0"
  by (induction xs) auto

lemma memcmp_same: "unat n \<le> length a \<Longrightarrow> memcmp a a n = Inr 0"
  by (simp add: memcmp_def bytes_compare_same)

lemma size_t_minus_one: "unat (- 1 :: size_t) = 18446744073709551615"
  by (simp add: unsigned_minus_1_eq_mask mask_eq_exp_minus_1)

lemma record_ids_match_same:
  assumes k: "strcspn h [SPACE, TAB] = Inr k" and pos: "0 < k"
    and len: "length h \<le> 2 ^ 64" and l: "unat l = length h - 1"
  shows "record_ids_match h h l = Inr True"
proof -
  from strcspn_bound [OF k] have kl: "k < length h"
    and tm: "h ! k = NUL \<or> h ! k = SPACE \<or> h ! k = TAB" by auto
  from kl len have k64: "k < 2 ^ 64" by simp
  have uk: "unat (of_nat k :: size_t) = k"
    using k64 by (simp add: of_nat_inverse)
  have uk1: "unat ((of_nat k :: size_t) - 1) = k - 1"
    using pos uk by (subst unat_minus_one) auto
  have le: "\<not> l < (of_nat k :: size_t)"
    using kl l uk by (simp add: word_less_nat_alt)
  have r0: "c_read h (of_nat k) = Inr (h ! k)"
    using kl uk by (simp add: c_read_def)
  have r1: "c_read h ((of_nat k :: size_t) - 1) = Inr (h ! (k - 1))"
    using kl uk1 by (simp add: c_read_def)
  have m0: "memcmp h h (of_nat k :: size_t) = Inr 0"
    using kl uk by (simp add: memcmp_same)
  have m1: "memcmp h h ((of_nat k :: size_t) - 1) = Inr 0"
    using kl uk1 by (simp add: memcmp_same)
  show ?thesis
    using tm by (auto simp: record_ids_match_def k le r0 r1 m0 m1 Let_def)
qed

text \<open>
  Reflexivity where the ID is not empty: a name that does not start with a space, a tab
  or a NUL matches itself.
\<close>

lemma record_names_match_bytes_refl:
  assumes "n \<noteq> []" "hd n \<noteq> NUL" "hd n \<noteq> SPACE" "hd n \<noteq> TAB" "length n < 2 ^ 64"
  shows "record_names_match_bytes n n = Inr True"
proof -
  obtain c cs where n: "n = c # cs" using assms(1) by (cases n) auto
  obtain k where k: "strcspn (n @ [NUL]) [SPACE, TAB] = Inr k"
    using strcspn_terminated by blast
  have pos: "0 < k"
    using strcspn_pos [of c "cs @ [NUL]" "[SPACE, TAB]" k] k assms(2-4) n by simp
  have u: "unat (of_nat (length n) :: size_t) = length (n @ [NUL]) - 1"
    using assms(5) by (simp add: of_nat_inverse)
  show ?thesis
    unfolding record_names_match_bytes_def PyBytes_AS_STRING_def
    using assms(5) by (intro record_ids_match_same [OF k pos _ u]) simp
qed

text \<open>
  Where the ID of the second name is not empty, every read is inside the names and the
  matcher returns a result.
\<close>

lemma memcmp_in_bounds:
  "unat n \<le> length a \<Longrightarrow> unat n \<le> length b \<Longrightarrow> \<exists>r. memcmp a b n = Inr r"
  by (simp add: memcmp_def)

lemma record_names_match_bytes_in_bounds:
  assumes ne: "n2 \<noteq> []" "hd n2 \<noteq> NUL" "hd n2 \<noteq> SPACE" "hd n2 \<noteq> TAB"
    and len: "length n1 < 2 ^ 64" "length n2 < 2 ^ 64"
  shows "\<exists>r. record_names_match_bytes n1 n2 = Inr r"
proof -
  let ?h1 = "n1 @ [NUL]" and ?h2 = "n2 @ [NUL]"
  obtain c cs where n: "n2 = c # cs" using ne(1) by (cases n2) auto
  obtain k where k: "strcspn ?h2 [SPACE, TAB] = Inr k"
    using strcspn_terminated by blast
  have pos: "0 < k"
    using strcspn_pos [of c "cs @ [NUL]" "[SPACE, TAB]" k] k ne(2-4) n by simp
  from strcspn_bound [OF k] have kl: "k \<le> length n2" by simp
  with len have k64: "k < 2 ^ 64" by simp
  have uk: "unat (of_nat k :: size_t) = k" using k64 by (simp add: of_nat_inverse)
  have uk1: "unat ((of_nat k :: size_t) - 1) = k - 1"
    using pos uk by (subst unat_minus_one) auto
  have ul: "unat (of_nat (length n1) :: size_t) = length n1"
    using len(1) by (simp add: of_nat_inverse)
  show ?thesis
  proof (cases "length n1 < k")
    case True
    then have "(of_nat (length n1) :: size_t) < of_nat k"
      by (simp add: word_less_nat_alt uk ul)
    then show ?thesis
      by (auto simp: record_names_match_bytes_def record_ids_match_def PyBytes_AS_STRING_def k)
  next
    case False
    then have nlt: "\<not> (of_nat (length n1) :: size_t) < of_nat k"
      by (simp add: word_less_nat_alt uk ul)
    have r0: "c_read ?h1 (of_nat k) = Inr (?h1 ! k)"
      using False uk by (simp add: c_read_def)
    have r1: "c_read ?h1 ((of_nat k :: size_t) - 1) = Inr (?h1 ! (k - 1))"
      using False uk1 by (simp add: c_read_def)
    have r2: "c_read ?h2 ((of_nat k :: size_t) - 1) = Inr (?h2 ! (k - 1))"
      using kl uk1 by (simp add: c_read_def)
    have b0: "unat (of_nat k :: size_t) \<le> length ?h1" "unat (of_nat k :: size_t) \<le> length ?h2"
      using False kl uk by simp_all
    have b1: "unat ((of_nat k :: size_t) - 1) \<le> length ?h1"
      "unat ((of_nat k :: size_t) - 1) \<le> length ?h2"
      using False kl uk1 by simp_all
    from memcmp_in_bounds [OF b0]
    obtain m0 where m0: "memcmp ?h1 ?h2 (of_nat k :: size_t) = Inr m0" by blast
    from memcmp_in_bounds [OF b1]
    obtain m1 where m1: "memcmp ?h1 ?h2 ((of_nat k :: size_t) - 1) = Inr m1" by blast
    show ?thesis
      by (auto simp: record_names_match_bytes_def record_ids_match_def PyBytes_AS_STRING_def
          k nlt r0 r1 r2 m0 m1 Let_def)
  qed
qed

subsection \<open>The matcher on the memory of the process\<close>

lemma strcspn_append: "strcspn s r = Inr k \<Longrightarrow> strcspn (s @ rest) r = Inr k"
  by (induction s arbitrary: k) (auto split: if_splits sum.splits)

lemma memcmp_run_differ:
  "length xs < m \<Longrightarrow> c \<noteq> d \<Longrightarrow>
   memcmp_run (xs @ c # r1) (xs @ d # r2) m = Inr (int (unat c) - int (unat d))"
proof (induction xs arbitrary: m)
  case Nil
  then obtain k where "m = Suc k" by (cases m) auto
  with Nil show ?case by simp
next
  case (Cons x xs)
  then obtain k where m: "m = Suc k" by (cases m) auto
  with Cons.prems have "length xs < k" by simp
  from Cons.IH [OF this Cons.prems(2)] show ?case by (simp add: m)
qed

lemma memcmp_run_in_bounds:
  "m \<le> length a \<Longrightarrow> m \<le> length b \<Longrightarrow>
   memcmp_run (a @ r1) (b @ r2) m = Inr (bytes_compare (take m a) (take m b))"
proof (induction m arbitrary: a b)
  case 0
  show ?case by simp
next
  case (Suc m)
  from Suc.prems obtain x xs y ys where ab: "a = x # xs" "b = y # ys"
    by (cases a; cases b) auto
  with Suc.prems have "m \<le> length xs" "m \<le> length ys" by simp_all
  from Suc.IH [OF this] ab show ?case by simp
qed

lemma peek_inside: "unat i < length ab \<Longrightarrow> peek (bf, ab @ rest) i = Inr (ab ! unat i)"
  by (simp add: peek_def nth_append)

lemma peek_before:
  "bf \<noteq> [] \<Longrightarrow> length ab < 2 ^ 64 \<Longrightarrow> peek (bf, ab) (0 - 1) = Inr (last bf)"
  by (cases bf rule: rev_cases) (simp_all add: peek_def size_t_minus_one)

text \<open>
  Where every read of the matcher is inside the names, the memory around them does not
  matter: the run on the memory returns what the matcher returns on the names alone.
\<close>

lemma record_ids_match_mem_agrees:
  assumes "record_ids_match h1 h2 l = Inr r"
  shows "record_ids_match_mem (b1, h1 @ a1) (b2, h2 @ a2) l = Inr r"
proof -
  from assms obtain k where k: "strcspn h2 [SPACE, TAB] = Inr k"
    by (auto simp: record_ids_match_def split: sum.splits)
  note k' = strcspn_append [OF k, of a2]
  show ?thesis
  proof (cases "l < of_nat k")
    case True
    with assms k k' show ?thesis
      by (simp add: record_ids_match_def record_ids_match_mem_def)
  next
    case False
    with assms k obtain e where e: "c_read h1 (of_nat k) = Inr e"
      by (auto simp: record_ids_match_def Let_def split: sum.splits)
    then have e': "peek (b1, h1 @ a1) (of_nat k) = Inr e"
      by (auto simp: c_read_def peek_inside split: if_splits)
    show ?thesis
    proof (cases "e \<noteq> NUL \<and> e \<noteq> SPACE \<and> e \<noteq> TAB")
      case True
      with assms k k' False e e' show ?thesis
        by (simp add: record_ids_match_def record_ids_match_mem_def)
    next
      case ne: False
      with assms k False e obtain c1 c2 where c: "c_read h1 (of_nat k - 1) = Inr c1"
        "c_read h2 (of_nat k - 1) = Inr c2"
        by (auto simp: record_ids_match_def Let_def split: sum.splits)
      then have c': "peek (b1, h1 @ a1) (of_nat k - 1) = Inr c1"
        "peek (b2, h2 @ a2) (of_nat k - 1) = Inr c2"
        by (auto simp: c_read_def peek_inside split: if_splits)
      define i :: size_t where
        "i = (if (DIGIT1 \<le> c1 \<and> c1 \<le> DIGIT3) \<and> (DIGIT1 \<le> c2 \<and> c2 \<le> DIGIT3)
              then of_nat k - 1 else of_nat k)"
      from assms k False e ne c obtain v where v: "memcmp h1 h2 i = Inr v" and r: "r = (v = 0)"
        by (auto simp: record_ids_match_def i_def Let_def split: sum.splits)
      from v have "memcmp_run (h1 @ a1) (h2 @ a2) (unat i) = Inr v"
        by (auto simp: memcmp_def memcmp_run_in_bounds split: if_splits)
      with k' False e' ne c' r show ?thesis
        by (auto simp: record_ids_match_mem_def i_def Let_def)
    qed
  qed
qed

lemma record_names_match_bytes_mem_agrees:
  "record_names_match_bytes (content a) (content b) = Inr r \<Longrightarrow>
   record_names_match_bytes_mem a b = Inr r"
  unfolding record_names_match_bytes_def record_names_match_bytes_mem_def
  by (rule record_ids_match_mem_agrees)

text \<open>
  So reflexivity holds on the memory too where the ID is not empty, whatever lies around
  the two objects that hold the name.
\<close>

lemma record_names_match_bytes_mem_refl:
  assumes "content a = n" "content b = n"
    and "n \<noteq> []" "hd n \<noteq> NUL" "hd n \<noteq> SPACE" "hd n \<noteq> TAB" "length n < 2 ^ 64"
  shows "record_names_match_bytes_mem a b = Inr True"
  using record_names_match_bytes_refl [OF assms(3-7)] assms(1,2)
  by (intro record_names_match_bytes_mem_agrees) simp

lemma empty_id:
  assumes "n = [] \<or> hd n = NUL \<or> hd n = SPACE \<or> hd n = TAB"
  shows "strcspn (PyBytes_AS_STRING n @ rest) [SPACE, TAB] = Inr 0 \<and>
         (\<exists>e. (PyBytes_AS_STRING n @ rest) ! 0 = e \<and> (e = NUL \<or> e = SPACE \<or> e = TAB))"
  using assms by (cases n) (auto simp: PyBytes_AS_STRING_def)

text \<open>
  Where the ID is empty the result is decided by the two bytes before the buffers. Unless
  both are one of \<open>'1'\<close>, \<open>'2'\<close>, \<open>'3'\<close>, no byte is compared and the names match; this
  is what happens at the empty name, whose cached hash is 0 or not yet computed.
\<close>

lemma empty_id_matches_without_digits:
  assumes id: "n = [] \<or> hd n = NUL \<or> hd n = SPACE \<or> hd n = TAB"
    and h: "h1 \<noteq> []" "h2 \<noteq> []"
    and nd: "\<not> (DIGIT1 \<le> last h1 \<and> last h1 \<le> DIGIT3 \<and> DIGIT1 \<le> last h2 \<and> last h2 \<le> DIGIT3)"
    and len: "length (PyBytes_AS_STRING n @ a1) < 2 ^ 64"
      "length (PyBytes_AS_STRING n @ a2) < 2 ^ 64"
  shows "record_names_match_bytes_mem
           \<lparr>before = h1, content = n, beyond = a1\<rparr>
           \<lparr>before = h2, content = n, beyond = a2\<rparr> = Inr True"
proof -
  let ?m1 = "PyBytes_AS_STRING n @ a1" and ?m2 = "PyBytes_AS_STRING n @ a2"
  from empty_id [OF id, of a2] have k: "strcspn ?m2 [SPACE, TAB] = Inr 0" by simp
  from empty_id [OF id, of a1]
  obtain e where e: "?m1 ! 0 = e" "e = NUL \<or> e = SPACE \<or> e = TAB" by blast
  have p0: "peek (h1, ?m1) 0 = Inr e"
    using e(1) by (simp add: peek_def PyBytes_AS_STRING_def)
  have p1: "peek (h1, ?m1) (0 - 1) = Inr (last h1)"
    using h(1) len(1) by (rule peek_before)
  have p2: "peek (h2, ?m2) (0 - 1) = Inr (last h2)"
    using h(2) len(2) by (rule peek_before)
  show ?thesis
    unfolding record_names_match_bytes_mem_def record_ids_match_mem_def
    using k p0 p1 p2 e(2) nd by (auto simp: Let_def)
qed

text \<open>
  C7 fails where the ID is empty. Take a name \<open>n\<close> that is empty or starts with a
  space, a tab or a NUL, held by two \<open>bytes\<close> objects. The trailing-digit check reads
  the byte before each buffer. When both are one of \<open>'1'\<close>, \<open>'2'\<close>, \<open>'3'\<close>, the
  length \<open>id2_length - 1\<close> is the largest \<open>size_t\<close> and \<open>memcmp\<close> runs past the two
  names into the memory behind them; where that memory differs, the matcher returns
  false: \<open>ids_match(n, n)\<close> is not true.
\<close>

theorem empty_id_not_reflexive:
  assumes id: "n = [] \<or> hd n = NUL \<or> hd n = SPACE \<or> hd n = TAB"
    and h1: "h1 \<noteq> []" "DIGIT1 \<le> last h1" "last h1 \<le> DIGIT3"
    and h2: "h2 \<noteq> []" "DIGIT1 \<le> last h2" "last h2 \<le> DIGIT3"
    and d: "c \<noteq> d"
    and len: "length (PyBytes_AS_STRING n @ p @ c # r1) < 2 ^ 64"
      "length (PyBytes_AS_STRING n @ p @ d # r2) < 2 ^ 64"
  shows "record_names_match_bytes_mem
           \<lparr>before = h1, content = n, beyond = p @ c # r1\<rparr>
           \<lparr>before = h2, content = n, beyond = p @ d # r2\<rparr> = Inr False"
proof -
  let ?m1 = "PyBytes_AS_STRING n @ p @ c # r1" and ?m2 = "PyBytes_AS_STRING n @ p @ d # r2"
  from empty_id [OF id, of "p @ d # r2"]
  have k: "strcspn ?m2 [SPACE, TAB] = Inr 0" by simp
  from empty_id [OF id, of "p @ c # r1"]
  obtain e where e: "?m1 ! 0 = e" "e = NUL \<or> e = SPACE \<or> e = TAB" by blast
  have p0: "peek (h1, ?m1) 0 = Inr e"
    using e(1) by (simp add: peek_def PyBytes_AS_STRING_def)
  have p1: "peek (h1, ?m1) (0 - 1) = Inr (last h1)"
    using h1(1) len(1) by (rule peek_before)
  have p2: "peek (h2, ?m2) (0 - 1) = Inr (last h2)"
    using h2(1) len(2) by (rule peek_before)
  have "memcmp_run ((PyBytes_AS_STRING n @ p) @ c # r1) ((PyBytes_AS_STRING n @ p) @ d # r2)
          (unat (0 - 1 :: size_t)) = Inr (int (unat c) - int (unat d))"
    using len(1) d by (intro memcmp_run_differ) (simp_all add: size_t_minus_one)
  then have m: "memcmp_run ?m1 ?m2 (unat (0 - 1 :: size_t)) = Inr (int (unat c) - int (unat d))"
    by simp
  have nz: "int (unat c) - int (unat d) \<noteq> 0" using d by (simp add: word_uint_eq_iff)
  show ?thesis
    unfolding record_names_match_bytes_mem_def record_ids_match_mem_def
    using k p0 p1 p2 m nz e(2) h1 h2 by (auto simp: Let_def)
qed

text \<open>
  The name \<open>' x182'\<close> in two objects with the cached hash \<open>0x33a360b55c3d67db\<close>, its
  value in CPython 3.11 with \<open>PYTHONHASHSEED=0\<close>: the eight bytes before each buffer
  end in \<open>0x33\<close>, the digit \<open>'3'\<close>. Behind the two objects the memory differs.
\<close>

theorem empty_id_not_reflexive_witness:
  "hd [SPACE, 120, 49, 56, 50] = SPACE \<and>
   DIGIT1 \<le> last [219, 103, 61, 92, 181, 96, 163, 51 :: byte] \<and>
   last [219, 103, 61, 92, 181, 96, 163, 51 :: byte] \<le> DIGIT3 \<and>
   (0 :: byte) \<noteq> 1 \<and>
   record_names_match_bytes_mem
     \<lparr>before = [219, 103, 61, 92, 181, 96, 163, 51],
      content = [SPACE, 120, 49, 56, 50], beyond = [0]\<rparr>
     \<lparr>before = [219, 103, 61, 92, 181, 96, 163, 51],
      content = [SPACE, 120, 49, 56, 50], beyond = [1]\<rparr> = Inr False"
  using empty_id_not_reflexive [where n = "[SPACE, 120, 49, 56, 50]"
      and ?h1.0 = "[219, 103, 61, 92, 181, 96, 163, 51]"
      and ?h2.0 = "[219, 103, 61, 92, 181, 96, 163, 51]"
      and p = "[]" and c = 0 and d = 1 and ?r1.0 = "[]" and ?r2.0 = "[]"]
  by (simp add: PyBytes_AS_STRING_def)

text \<open>
  C10 fails whenever the ID of the second name is empty and the first name is empty or
  starts with a space, a tab or a NUL: the trailing-digit check then reads
  \<open>header1[id2_length - 1]\<close> at index \<open>2^64 - 1\<close>, outside the buffer.
\<close>

theorem record_ids_match_empty_id_out_of_bounds:
  assumes "strcspn header2 [SPACE, TAB] = Inr 0"
    and "c_read header1 0 = Inr c" and "c = NUL \<or> c = SPACE \<or> c = TAB"
    and "length header1 < 2 ^ 64"
  shows "c_read header1 (0 - 1) = Inl OutOfBounds \<and>
         record_ids_match header1 header2 header1_length = Inl OutOfBounds"
proof -
  have "c_read header1 (0 - 1) = Inl OutOfBounds"
    using assms(4) by (simp add: c_read_def size_t_minus_one)
  then show ?thesis
    using assms(1-3) by (auto simp: record_ids_match_def)
qed

theorem record_ids_match_empty_id_out_of_bounds_witness:
  "strcspn (PyBytes_AS_STRING [SPACE, 120]) [SPACE, TAB] = Inr 0 \<and>
   c_read (PyBytes_AS_STRING [SPACE, 121]) 0 = Inr SPACE \<and>
   length (PyBytes_AS_STRING [SPACE, 121]) < 2 ^ 64 \<and>
   c_read (PyBytes_AS_STRING [SPACE, 121]) (0 - 1) = Inl OutOfBounds \<and>
   record_ids_match (PyBytes_AS_STRING [SPACE, 121]) (PyBytes_AS_STRING [SPACE, 120]) 2
     = Inl OutOfBounds"
proof -
  have a: "strcspn (PyBytes_AS_STRING [SPACE, 120]) [SPACE, TAB] = Inr 0"
    by (simp add: PyBytes_AS_STRING_def)
  have b: "c_read (PyBytes_AS_STRING [SPACE, 121]) 0 = Inr SPACE"
    by (simp add: PyBytes_AS_STRING_def c_read_def)
  have c: "length (PyBytes_AS_STRING [SPACE, 121]) < 2 ^ 64"
    by (simp add: PyBytes_AS_STRING_def)
  show ?thesis
    using record_ids_match_empty_id_out_of_bounds [OF a b _ c, of 2] a b c by simp
qed

text \<open>
  The same read at the empty name, through \<open>record_names_match_bytes\<close> and through
  \<open>is_mate\<close> of both record classes.
\<close>

lemma empty_name_read_out_of_bounds:
  "record_names_match_bytes [] [] = Inl OutOfBounds \<and>
   bytes_is_mate \<lparr>bname = [], bsequence = [65], bqualities = [73]\<rparr>
                 \<lparr>bname = [], bsequence = [65], bqualities = [73]\<rparr> = Inl OutOfBounds \<and>
   is_mate \<lparr>name = [], sequence = [65], qualities = None\<rparr>
           \<lparr>name = [], sequence = [65], qualities = None\<rparr> = Inl OutOfBounds"
  by (simp add: record_names_match_bytes_def bytes_is_mate_def is_mate_def
      record_ids_match_def PyBytes_AS_STRING_def PyUnicode_1BYTE_DATA_def c_read_def
      size_t_minus_one)

section \<open>The paired-head synchronizer\<close>

lemma count_lf_append: "count_lf (xs @ ys) = count_lf xs + count_lf ys"
  by (induction xs) (auto simp: count_lf_def)

lemma count_lf_take_Suc:
  "n < length xs \<Longrightarrow>
   count_lf (take (Suc n) xs) = count_lf (take n xs) + (if xs ! n = LF then 1 else 0)"
  by (simp add: take_Suc_conv_app_nth count_lf_append) (simp add: count_lf_def)

lemma count_lf_take_mono: "m \<le> n \<Longrightarrow> count_lf (take m xs) \<le> count_lf (take n xs)"
proof -
  assume "m \<le> n"
  then have "take n xs = take m xs @ take (n - m) (drop m xs)"
    by (metis le_add_diff_inverse take_add)
  then show ?thesis by (simp add: count_lf_append)
qed

lemma count_lf_take_le: "count_lf (take n xs) \<le> count_lf xs"
  by (metis append_take_drop_id count_lf_append le_add1)

lemma skip_to_newline_spec:
  "0 \<le> pos \<Longrightarrow> pos \<le> stop \<Longrightarrow> stop \<le> int (length data) \<Longrightarrow>
   \<exists>p. skip_to_newline data pos stop = Inr p \<and> pos \<le> p \<and> p \<le> stop \<and>
       (p < stop \<longrightarrow> data ! nat p = LF) \<and>
       count_lf (take (nat p) data) = count_lf (take (nat pos) data)"
proof (induction data pos stop rule: skip_to_newline.induct)
  case (1 data pos stop)
  show ?case
  proof (cases "pos < stop")
    case False
    with "1.prems" show ?thesis by simp
  next
    case True
    with "1.prems" have rd: "buffer_read data pos = Inr (data ! nat pos)"
      by (simp add: buffer_read_def)
    show ?thesis
    proof (cases "data ! nat pos = LF")
      case lf: True
      with True rd "1.prems" show ?thesis by simp
    next
      case nlf: False
      from True "1.prems" have n: "nat pos < length data" by linarith
      from "1.prems" have s: "nat (pos + 1) = Suc (nat pos)" by linarith
      from "1.IH" [OF True rd nlf] True "1.prems"
      obtain p where p: "skip_to_newline data (pos + 1) stop = Inr p" "pos + 1 \<le> p" "p \<le> stop"
        "p < stop \<longrightarrow> data ! nat p = LF"
        "count_lf (take (nat p) data) = count_lf (take (nat (pos + 1)) data)"
        by auto
      have "count_lf (take (nat (pos + 1)) data) = count_lf (take (nat pos) data)"
        using n nlf by (simp add: s count_lf_take_Suc)
      with p True rd nlf show ?thesis
        by (subst skip_to_newline.simps) auto
    qed
  qed
qed

lemma count_lf_past_newline:
  assumes "0 \<le> p" "p < int (length data)" "data ! nat p = LF"
  shows "count_lf (take (nat (p + 1)) data) = Suc (count_lf (take (nat p) data))"
proof -
  from assms have "nat (p + 1) = Suc (nat p)" "nat p < length data" by linarith+
  with assms show ?thesis by (simp add: count_lf_take_Suc)
qed

lemma heads_inv_step:
  assumes inv: "heads_inv b1 b2 e1 e2 pos1 pos2 lb rs1 rs2"
    and e1: "e1 \<le> int (length b1)" and e2: "e2 \<le> int (length b2)"
    and p1: "pos1 \<le> p1" "p1 < e1" "b1 ! nat p1 = LF"
      "count_lf (take (nat p1) b1) = count_lf (take (nat pos1) b1)"
    and p2: "pos2 \<le> p2" "p2 < e2" "b2 ! nat p2 = LF"
      "count_lf (take (nat p2) b2) = count_lf (take (nat pos2) b2)"
  shows "if lb + 1 = 4 then heads_inv b1 b2 e1 e2 (p1 + 1) (p2 + 1) 0 (p1 + 1) (p2 + 1)
         else heads_inv b1 b2 e1 e2 (p1 + 1) (p2 + 1) (lb + 1) rs1 rs2"
proof -
  from inv have b: "0 \<le> rs1" "rs1 \<le> pos1" "0 \<le> rs2" "rs2 \<le> pos2" "0 \<le> lb" "lb < 4"
    and c: "count_lf (take (nat pos1) b1) = count_lf (take (nat pos2) b2)"
      "int (count_lf (take (nat pos1) b1)) = int (count_lf (take (nat rs1) b1)) + lb"
    and post: "heads_post b1 b2 e1 e2 rs1 rs2"
    by (auto simp: heads_inv_def heads_post_def)
  have n1: "count_lf (take (nat (p1 + 1)) b1) = Suc (count_lf (take (nat pos1) b1))"
    using count_lf_past_newline [of p1 b1] p1 b e1 by simp
  have n2: "count_lf (take (nat (p2 + 1)) b2) = Suc (count_lf (take (nat pos2) b2))"
    using count_lf_past_newline [of p2 b2] p2 b e2 by simp
  show ?thesis
  proof (cases "lb + 1 = 4")
    case True
    from post have d: "4 dvd count_lf (take (nat rs1) b1)" unfolding heads_post_def by blast
    from c True have "count_lf (take (nat (p1 + 1)) b1) = count_lf (take (nat rs1) b1) + 4"
      using n1 by linarith
    with d have "4 dvd count_lf (take (nat (p1 + 1)) b1)" "4 \<le> count_lf (take (nat (p1 + 1)) b1)"
      by simp_all
    with True n1 n2 c p1 p2 b show ?thesis
      by (simp add: heads_inv_def heads_post_def)
  next
    case False
    with n1 n2 c p1 p2 b post show ?thesis
      by (simp add: heads_inv_def)
  qed
qed

lemma paired_fastq_heads_loop_spec:
  assumes e1: "e1 \<le> int (length b1)" and e2: "e2 \<le> int (length b2)"
    and inv: "heads_inv b1 b2 e1 e2 pos1 pos2 lb rs1 rs2"
  shows "\<exists>l1 l2. paired_fastq_heads_loop b1 b2 e1 e2 pos1 pos2 lb rs1 rs2 = Some (Inr (l1, l2)) \<and>
           heads_post b1 b2 e1 e2 l1 l2"
  using inv
proof (induction "nat (e1 - pos1)" arbitrary: pos1 pos2 lb rs1 rs2 rule: less_induct)
  case less
  note inv = less.prems
  from inv have b: "0 \<le> pos1" "pos1 \<le> e1" "0 \<le> pos2" "pos2 \<le> e2"
    and post: "heads_post b1 b2 e1 e2 rs1 rs2"
    by (auto simp: heads_inv_def heads_post_def)
  from skip_to_newline_spec [OF b(1,2) e1]
  obtain p1 where p1: "skip_to_newline b1 pos1 e1 = Inr p1" "pos1 \<le> p1" "p1 \<le> e1"
    "p1 < e1 \<longrightarrow> b1 ! nat p1 = LF"
    "count_lf (take (nat p1) b1) = count_lf (take (nat pos1) b1)" by blast
  from skip_to_newline_spec [OF b(3,4) e2]
  obtain p2 where p2: "skip_to_newline b2 pos2 e2 = Inr p2" "pos2 \<le> p2" "p2 \<le> e2"
    "p2 < e2 \<longrightarrow> b2 ! nat p2 = LF"
    "count_lf (take (nat p2) b2) = count_lf (take (nat pos2) b2)" by blast
  show ?case
  proof (cases "p1 = e1 \<or> p2 = e2")
    case True
    with p1 p2 post show ?thesis
      by (subst paired_fastq_heads_loop.simps) (auto simp: Let_def)
  next
    case False
    with p1 p2 have lt: "p1 < e1" "p2 < e2" by auto
    have step: "if lb + 1 = 4 then heads_inv b1 b2 e1 e2 (p1 + 1) (p2 + 1) 0 (p1 + 1) (p2 + 1)
         else heads_inv b1 b2 e1 e2 (p1 + 1) (p2 + 1) (lb + 1) rs1 rs2"
      using heads_inv_step [OF inv e1 e2, of p1 p2] p1 p2 lt by simp
    have m: "nat (e1 - (p1 + 1)) < nat (e1 - pos1)" using p1 lt by linarith
    show ?thesis
    proof (cases "lb + 1 = 4")
      case True
      with step have "heads_inv b1 b2 e1 e2 (p1 + 1) (p2 + 1) 0 (p1 + 1) (p2 + 1)" by simp
      from less.hyps [OF m this] True False p1 p2 show ?thesis
        by (subst paired_fastq_heads_loop.simps) (simp add: Let_def)
    next
      case nf: False
      with step have "heads_inv b1 b2 e1 e2 (p1 + 1) (p2 + 1) (lb + 1) rs1 rs2" by simp
      from less.hyps [OF m this] nf False p1 p2 show ?thesis
        by (subst paired_fastq_heads_loop.simps) (simp add: Let_def)
    qed
  qed
qed

text \<open>
  C6. For buffers \<open>b1\<close>, \<open>b2\<close> and ends within them, \<open>paired_fastq_heads\<close> returns
  lengths \<open>len1 \<le> e1\<close> and \<open>len2 \<le> e2\<close>, each 0 or just behind a newline, such
  that the two prefixes hold the same number of newlines, a multiple of four; the result
  is \<open>(0, 0)\<close> when either buffer holds fewer than four newlines (before its end, or at
  all).
\<close>

theorem paired_fastq_heads_postcondition:
  assumes "0 \<le> e1" "e1 \<le> int (length b1)" "0 \<le> e2" "e2 \<le> int (length b2)"
  shows "\<exists>len1 len2.
     paired_fastq_heads b1 b2 e1 e2 = Some (Inr (len1, len2)) \<and>
     0 \<le> len1 \<and> len1 \<le> e1 \<and> 0 \<le> len2 \<and> len2 \<le> e2 \<and>
     count_lf (take (nat len1) b1) = count_lf (take (nat len2) b2) \<and>
     4 dvd count_lf (take (nat len1) b1) \<and>
     (len1 = 0 \<or> b1 ! nat (len1 - 1) = LF) \<and>
     (len2 = 0 \<or> b2 ! nat (len2 - 1) = LF) \<and>
     (count_lf (take (nat e1) b1) < 4 \<or> count_lf (take (nat e2) b2) < 4 \<or>
      count_lf b1 < 4 \<or> count_lf b2 < 4 \<longrightarrow> len1 = 0 \<and> len2 = 0)"
proof -
  have "heads_inv b1 b2 e1 e2 0 0 0 0 0"
    using assms by (simp add: heads_inv_def heads_post_def count_lf_def)
  from paired_fastq_heads_loop_spec [OF assms(2) assms(4) this]
  obtain l1 l2 where run: "paired_fastq_heads b1 b2 e1 e2 = Some (Inr (l1, l2))"
    and post: "heads_post b1 b2 e1 e2 l1 l2"
    by (auto simp: paired_fastq_heads_def)
  from post have le: "nat l1 \<le> nat e1" "nat l2 \<le> nat e2"
    and eq: "count_lf (take (nat l1) b1) = count_lf (take (nat l2) b2)"
    and z: "l1 = 0 \<and> l2 = 0 \<or> 4 \<le> count_lf (take (nat l1) b1)"
    unfolding heads_post_def by auto
  have m1: "count_lf (take (nat l1) b1) \<le> count_lf (take (nat e1) b1)"
    using le(1) by (rule count_lf_take_mono)
  have m2: "count_lf (take (nat l2) b2) \<le> count_lf (take (nat e2) b2)"
    using le(2) by (rule count_lf_take_mono)
  have t1: "count_lf (take (nat e1) b1) \<le> count_lf b1" by (rule count_lf_take_le)
  have t2: "count_lf (take (nat e2) b2) \<le> count_lf b2" by (rule count_lf_take_le)
  have few: "count_lf (take (nat e1) b1) < 4 \<or> count_lf (take (nat e2) b2) < 4 \<or>
      count_lf b1 < 4 \<or> count_lf b2 < 4 \<longrightarrow> l1 = 0 \<and> l2 = 0"
    using z eq m1 m2 t1 t2 by linarith
  from post few run show ?thesis
    unfolding heads_post_def by blast
qed

theorem paired_fastq_heads_postcondition_witness:
  "(0::int) \<le> 9 \<and> 9 \<le> int (length [AT, LF, 65, LF, PLUS, LF, 73, LF, AT]) \<and>
   (0::int) \<le> 5 \<and> 5 \<le> int (length [AT, LF, 67, LF, PLUS, LF, 74, LF]) \<and>
   paired_fastq_heads [AT, LF, 65, LF, PLUS, LF, 73, LF, AT]
     [AT, LF, 67, LF, PLUS, LF, 74, LF] 9 5 = Some (Inr (0, 0))"
proof -
  have c: "count_lf (take (nat 5) [AT, LF, 67, LF, PLUS, LF, 74, LF]) < 4"
    by (simp add: count_lf_def)
  from paired_fastq_heads_postcondition
    [of 9 "[AT, LF, 65, LF, PLUS, LF, 73, LF, AT]" 5 "[AT, LF, 67, LF, PLUS, LF, 74, LF]"] c
  show ?thesis by auto
qed

section \<open>The streaming parser\<close>

lemma fastq_next_unfold:
  "fastq_next self =
     (if eof self then Some (Inl StopIteration, self)
      else (case four_newlines (buf self) (record_start self) (bufend self) of
          None \<Rightarrow>
            (case read_into_buffer self of
               (Some e, self') \<Rightarrow> Some (Inl e, self')
             | (None, self') \<Rightarrow> fastq_next self')
        | Some (name_end, sequence_end, second_header_end, qualities_end) \<Rightarrow>
            Some (emit_record self name_end sequence_end second_header_end qualities_end)))"
  by (rule fastq_next.simps)

subsection \<open>What a call leaves unchanged, and the line of a format error\<close>

lemma make_room_keeps:
  "make_room s = (s', b) \<Longrightarrow>
     number_of_records s' = number_of_records s \<and>
     use_custom_class s' = use_custom_class s \<and>
     save_as_bytes s' = save_as_bytes s \<and>
     sequence_class s' = sequence_class s \<and>
     yielded_two_headers s' = yielded_two_headers s"
  by (auto simp: make_room_def Let_def split: if_splits)

lemma fill_from_file_keeps:
  "number_of_records (fill_from_file s b) = number_of_records s \<and>
   use_custom_class (fill_from_file s b) = use_custom_class s \<and>
   save_as_bytes (fill_from_file s b) = save_as_bytes s \<and>
   sequence_class (fill_from_file s b) = sequence_class s \<and>
   yielded_two_headers (fill_from_file s b) = yielded_two_headers s"
  by (simp add: fill_from_file_def split_beta)

lemma end_of_file_keeps:
  "end_of_file s b l = (r, s') \<Longrightarrow>
     number_of_records s' = number_of_records s \<and>
     use_custom_class s' = use_custom_class s \<and>
     save_as_bytes s' = save_as_bytes s \<and>
     sequence_class s' = sequence_class s \<and>
     yielded_two_headers s' = yielded_two_headers s \<and>
     (\<forall>m n. r = Some (FastqFormatError m n) \<longrightarrow> m = PrematureEOF)"
  by (auto simp: end_of_file_def Let_def split: if_splits)

lemma read_into_buffer_keeps:
  assumes "read_into_buffer s = (r, s')"
  shows "number_of_records s' = number_of_records s \<and>
         use_custom_class s' = use_custom_class s \<and>
         save_as_bytes s' = save_as_bytes s \<and>
         sequence_class s' = sequence_class s \<and>
         yielded_two_headers s' = yielded_two_headers s \<and>
         (\<forall>m n. r = Some (FastqFormatError m n) \<longrightarrow> m = PrematureEOF)"
proof -
  obtain s1 b where m: "make_room s = (s1, b)" by (cases "make_room s")
  note k1 = make_room_keeps [OF m]
  note k2 = fill_from_file_keeps [of s1 b]
  show ?thesis
  proof (cases "b < length (buf s1)")
    case False
    with assms m k1 show ?thesis by (auto simp: read_into_buffer_def)
  next
    case True
    show ?thesis
    proof (cases "b = bufend (fill_from_file s1 b)")
      case e: True
      with assms m True have "end_of_file (fill_from_file s1 b) b (bufend s) = (r, s')"
        by (simp add: read_into_buffer_def Let_def)
      from end_of_file_keeps [OF this] k1 k2 show ?thesis by simp
    next
      case e: False
      with assms m True k1 k2 show ?thesis
        by (auto simp: read_into_buffer_def Let_def)
    qed
  qed
qed

lemma call_sequence_class_record:
  "call_sequence_class cls n s q = Inr v \<Longrightarrow> is_record v"
  by (cases cls) (auto simp: call_sequence_class_def split: sum.splits)

subsection \<open>The character quoted in a message\<close>

lemma bit7_int: "0 \<le> k \<Longrightarrow> k < 256 \<Longrightarrow> bit (k::int) 7 \<longleftrightarrow> \<not> k < 128"
proof -
  assume k: "0 \<le> k" "k < 256"
  then have "odd (k div 128) \<longleftrightarrow> \<not> k < 128" by presburger
  then show ?thesis by (simp add: bit_iff_odd)
qed

text \<open>The value of a byte read as a signed \<open>char\<close>.\<close>

lemma sint_byte: "sint (c::byte) = (if c < 128 then int (unat c) else int (unat c) - 256)"
proof -
  have ui: "0 \<le> uint c" "uint c < 256" using uint_lt2p [of c] by simp_all
  have b: "bit (uint c) 7 \<longleftrightarrow> \<not> uint c < 128"
    using ui by (rule bit7_int)
  have t: "take_bit 8 (uint c) = uint c"
    using ui by (simp add: take_bit_int_eq_self)
  have "sint c = signed_take_bit 7 (uint c)" by (simp add: sint_uint)
  also have "\<dots> = take_bit 8 (uint c) - 2 ^ 8 * of_bool (bit (uint c) 7)"
    using signed_take_bit_eq_take_bit_minus [of 7 "uint c"] by simp
  also have "\<dots> = (if uint c < 128 then uint c else uint c - 256)"
    by (simp add: t b)
  finally show ?thesis by (simp add: word_less_def)
qed

lemma chr_ascii: "c < 128 \<Longrightarrow> chr c = Inr [unat c]"
  by (simp add: chr_def sint_byte)

lemma chr_negative: "\<not> c < 128 \<Longrightarrow> chr c = Inl (ValueError ChrArgNotInRange)"
proof -
  assume a: "\<not> c < 128"
  have "uint c < 256" using uint_lt2p [of c] by simp
  with a show ?thesis by (simp add: chr_def sint_byte)
qed

lemma chr_cases:
  obtains (found) t where "chr c = Inr t" | (refused) "chr c = Inl (ValueError ChrArgNotInRange)"
  by (cases "sint c < 0") (simp_all add: chr_def)

lemma emit_record_cases:
  obtains
    (bad_format) m l where "emit_record s p1 p2 p3 p4 = (Inl (FastqFormatError m l), s)"
      "m \<noteq> PrematureEOF" "l = number_of_records s * 4 + format_offset m"
  | (chr_error) "emit_record s p1 p2 p3 p4 = (Inl (ValueError ChrArgNotInRange), s)"
  | (first_value) b where
      "emit_record s p1 p2 p3 p4 = (Inr (FirstValue b), s\<lparr>yielded_two_headers := True\<rparr>)"
  | (constructor_error) e where "use_custom_class s" "emit_record s p1 p2 p3 p4 = (Inl e, s)"
  | (a_record) v where "is_record v"
      "emit_record s p1 p2 p3 p4 =
         (Inr v, s\<lparr>number_of_records := number_of_records s + 1, record_start := p4 + 1\<rparr>)"
proof -
  define nl where "nl = (if buf s ! (p1 - 1) = CR then p1 - (record_start s + 1) - 1
    else p1 - (record_start s + 1))"
  define sl where "sl = (if buf s ! (p2 - 1) = CR then p2 - (p1 + 1) - 1 else p2 - (p1 + 1))"
  define hl where "hl = (if buf s ! (p3 - 1) = CR then p3 - (p2 + 1 + 1) - 1
    else p3 - (p2 + 1 + 1))"
  define ql where "ql = (if buf s ! (p4 - 1) = CR then p4 - (p3 + 1) - 1 else p4 - (p3 + 1))"
  define adv where
    "adv = s\<lparr>number_of_records := number_of_records s + 1, record_start := p4 + 1\<rparr>"
  define bn where "bn = py_slice (buf s) (record_start s + 1) (record_start s + 1 + nl)"
  define bs where "bs = py_slice (buf s) (p1 + 1) (p1 + 1 + sl)"
  define bq where "bq = py_slice (buf s) (p3 + 1) (p3 + 1 + ql)"
  have eq: "emit_record s p1 p2 p3 p4 =
    (if buf s ! record_start s \<noteq> AT
     then (case chr (buf s ! record_start s) of
             Inl e \<Rightarrow> (Inl e, s)
           | Inr found \<Rightarrow>
               (Inl (FastqFormatError (ExpectedAt found) (number_of_records s * 4)), s))
     else if buf s ! (p2 + 1) \<noteq> PLUS
     then (case chr (buf s ! (p2 + 1)) of
             Inl e \<Rightarrow> (Inl e, s)
           | Inr found \<Rightarrow>
               (Inl (FastqFormatError (ExpectedPlus found) (number_of_records s * 4 + 2)), s))
     else if hl \<noteq> 0 \<and>
             (nl \<noteq> hl \<or>
              strncmp (drop (p2 + 1 + 1) (buf s)) (drop (record_start s + 1) (buf s)) hl \<noteq> 0)
     then (Inl (FastqFormatError DescriptionsDontMatch (number_of_records s * 4 + 2)), s)
     else if ql \<noteq> sl
     then (Inl (FastqFormatError LengthsDiffer (number_of_records s * 4 + 3)), s)
     else if number_of_records s = 0 \<and> \<not> yielded_two_headers s
     then (Inr (FirstValue (hl \<noteq> 0)), s\<lparr>yielded_two_headers := True\<rparr>)
     else if save_as_bytes s
     then (Inr (BytesRecord \<lparr>bname = bn, bsequence = bs, bqualities = bq\<rparr>), adv)
     else if \<not> string_is_ascii (py_slice (buf s) (record_start s) p4)
     then (Inl (FastqFormatError NonAsciiFound (number_of_records s * 4)), s)
     else if use_custom_class s
     then (case call_sequence_class (sequence_class s) (ascii_str bn) (ascii_str bs)
                 (ascii_str bq) of
             Inl e \<Rightarrow> (Inl e, s)
           | Inr ret_val \<Rightarrow> (Inr ret_val, adv))
     else (Inr (SequenceRecord \<lparr>name = ascii_str bn, sequence = ascii_str bs,
                                 qualities = Some (ascii_str bq)\<rparr>), adv))"
    unfolding emit_record_def Let_def nl_def sl_def hl_def ql_def adv_def bn_def bs_def bq_def
    by (rule refl)
  consider "buf s ! record_start s \<noteq> AT"
    | "buf s ! record_start s = AT" "buf s ! (p2 + 1) \<noteq> PLUS"
    | "buf s ! record_start s = AT" "buf s ! (p2 + 1) = PLUS"
      "hl \<noteq> 0 \<and> (nl \<noteq> hl \<or>
        strncmp (drop (p2 + 1 + 1) (buf s)) (drop (record_start s + 1) (buf s)) hl \<noteq> 0)"
    | "buf s ! record_start s = AT" "buf s ! (p2 + 1) = PLUS"
      "\<not> (hl \<noteq> 0 \<and> (nl \<noteq> hl \<or>
        strncmp (drop (p2 + 1 + 1) (buf s)) (drop (record_start s + 1) (buf s)) hl \<noteq> 0))"
      "ql \<noteq> sl"
    | (ok) "buf s ! record_start s = AT" "buf s ! (p2 + 1) = PLUS"
      "\<not> (hl \<noteq> 0 \<and> (nl \<noteq> hl \<or>
        strncmp (drop (p2 + 1 + 1) (buf s)) (drop (record_start s + 1) (buf s)) hl \<noteq> 0))"
      "ql = sl"
    by blast
  then show thesis
  proof cases
    case 1
    show ?thesis
    proof (cases "buf s ! record_start s" rule: chr_cases)
      case (found t)
      with 1 show ?thesis by (intro bad_format [of "ExpectedAt t"]) (simp_all add: eq)
    next
      case refused
      with 1 show ?thesis by (intro chr_error) (simp add: eq)
    qed
  next
    case 2
    show ?thesis
    proof (cases "buf s ! (p2 + 1)" rule: chr_cases)
      case (found t)
      with 2 show ?thesis by (intro bad_format [of "ExpectedPlus t"]) (simp_all add: eq)
    next
      case refused
      with 2 show ?thesis by (intro chr_error) (simp add: eq)
    qed
  next
    case 3
    then show ?thesis by (intro bad_format [of DescriptionsDontMatch]) (simp_all add: eq)
  next
    case 4
    then show ?thesis by (intro bad_format [of LengthsDiffer]) (simp_all add: eq)
  next
    case ok
    show ?thesis
    proof (cases "number_of_records s = 0 \<and> \<not> yielded_two_headers s")
      case True
      with ok show ?thesis by (intro first_value [of "hl \<noteq> 0"]) (simp add: eq)
    next
      case nf: False
      show ?thesis
      proof (cases "save_as_bytes s")
        case True
        with ok nf show ?thesis
          by (intro a_record [of "BytesRecord \<lparr>bname = bn, bsequence = bs, bqualities = bq\<rparr>"])
             (simp_all add: eq adv_def)
      next
        case nb: False
        show ?thesis
        proof (cases "string_is_ascii (py_slice (buf s) (record_start s) p4)")
          case False
          with ok nf nb show ?thesis by (intro bad_format [of NonAsciiFound]) (simp_all add: eq)
        next
          case asc: True
          show ?thesis
          proof (cases "use_custom_class s")
            case False
            with ok nf nb asc show ?thesis
              by (intro a_record [of "SequenceRecord \<lparr>name = ascii_str bn,
                    sequence = ascii_str bs, qualities = Some (ascii_str bq)\<rparr>"])
                 (simp_all add: eq adv_def)
          next
            case cu: True
            show ?thesis
            proof (cases "call_sequence_class (sequence_class s) (ascii_str bn) (ascii_str bs)
                 (ascii_str bq)")
              case (Inl e)
              with ok nf nb asc cu show ?thesis
                by (intro constructor_error [of e]) (auto simp: eq)
            next
              case (Inr v)
              with ok nf nb asc cu call_sequence_class_record [OF Inr] show ?thesis
                by (intro a_record [of v]) (auto simp: eq adv_def)
            qed
          qed
        qed
      qed
    qed
  qed
qed

lemma emit_record_counts:
  assumes "\<not> use_custom_class s"
  shows "case emit_record s a b c d of (r, s') \<Rightarrow>
         use_custom_class s' = use_custom_class s \<and>
         (case r of
            Inl e \<Rightarrow> number_of_records s' = number_of_records s \<and>
               (\<forall>m l. e = FastqFormatError m l \<longrightarrow>
                  m \<noteq> PrematureEOF \<and> l = number_of_records s * 4 + format_offset m)
          | Inr v \<Rightarrow> number_of_records s' =
               number_of_records s + (if is_record v then 1 else 0))"
  using assms by (cases rule: emit_record_cases [of s a b c d]) simp_all

text \<open>Induction over the reads that a call of \<open>__next__\<close> makes before it returns.\<close>

lemma fastq_next_induct [consumes 1, case_names stop emit error more]:
  assumes run: "fastq_next s = Some y"
    and stop: "\<And>s. eof s \<Longrightarrow> P s (Inl StopIteration, s)"
    and emit: "\<And>s a b c d. \<not> eof s \<Longrightarrow>
        four_newlines (buf s) (record_start s) (bufend s) = Some (a, b, c, d) \<Longrightarrow>
        P s (emit_record s a b c d)"
    and error: "\<And>s e s'. \<not> eof s \<Longrightarrow>
        four_newlines (buf s) (record_start s) (bufend s) = None \<Longrightarrow>
        read_into_buffer s = (Some e, s') \<Longrightarrow> P s (Inl e, s')"
    and more: "\<And>s s' y. \<not> eof s \<Longrightarrow>
        four_newlines (buf s) (record_start s) (bufend s) = None \<Longrightarrow>
        read_into_buffer s = (None, s') \<Longrightarrow> P s' y \<Longrightarrow> P s y"
  shows "P s y"
  apply (rule fastq_next.raw_induct [where P = P, OF _ run])
  subgoal premises prems for f s y
  proof (cases "eof s")
    case True
    with prems(2) stop show ?thesis by auto
  next
    case False
    show ?thesis
    proof (cases "four_newlines (buf s) (record_start s) (bufend s)")
      case (Some q)
      obtain a b c d where "q = (a, b, c, d)" by (cases q) auto
      with Some False prems(2) emit [of s a b c d] show ?thesis by auto
    next
      case None
      obtain r s' where rb: "read_into_buffer s = (r, s')" by (cases "read_into_buffer s")
      show ?thesis
      proof (cases r)
        case n: None
        with None False rb prems(2) have "f s' = Some y" by simp
        from more [OF False None _ prems(1) [OF this]] rb n show ?thesis by simp
      next
        case (Some e)
        with None False rb prems(2) error [of s e s'] show ?thesis by auto
      qed
    qed
  qed
  done

lemma fastq_next_ok:
  assumes "fastq_next s = Some y" and "\<not> use_custom_class s"
  shows "call_ok s y"
  using assms
proof (induction rule: fastq_next_induct)
  case (stop s)
  show ?case by (simp add: call_ok_def)
next
  case (emit s a b c d)
  with emit_record_counts [of s a b c d] show ?case
    by (auto simp: call_ok_def split: prod.splits sum.splits)
next
  case (error s e s')
  with read_into_buffer_keeps [of s "Some e" s'] show ?case
    by (auto simp: call_ok_def)
next
  case (more s s' y)
  from read_into_buffer_keeps [OF more(3)] more(4,5) show ?case
    by (auto simp: call_ok_def split: prod.splits sum.splits)
qed

lemma outcomes_error_line:
  assumes "outcomes n s = Some (map Inr vs @ [Inl (FastqFormatError msg line)])"
    and "\<not> use_custom_class s" and "msg \<noteq> PrematureEOF"
  shows "line = (number_of_records s + length (filter is_record vs)) * 4 + format_offset msg"
  using assms
proof (induction vs arbitrary: n s)
  case Nil
  then obtain k where n: "n = Suc k" by (cases n) auto
  with Nil.prems(1) obtain s' where nx: "fastq_next s = Some (Inl (FastqFormatError msg line), s')"
    by (auto split: option.splits prod.splits)
  from fastq_next_ok [OF nx Nil.prems(2)] Nil.prems(3) show ?case
    by (simp add: call_ok_def)
next
  case (Cons v vs)
  then obtain k where n: "n = Suc k" by (cases n) auto
  with Cons.prems(1) obtain s' where nx: "fastq_next s = Some (Inr v, s')"
    and rest: "outcomes k s' = Some (map Inr vs @ [Inl (FastqFormatError msg line)])"
    by (auto split: option.splits prod.splits)
  from fastq_next_ok [OF nx Cons.prems(2)]
  have c: "use_custom_class s' = use_custom_class s"
    "number_of_records s' = number_of_records s + (if is_record v then 1 else 0)"
    by (simp_all add: call_ok_def)
  from Cons.IH [OF rest _ Cons.prems(3)] c Cons.prems(2) show ?case by simp
qed

text \<open>
  The line of a format error that is raised. When the parser, built with one of the two
  record classes of the module, has returned \<open>k - 1\<close> records (and the leading
  boolean) and the next call raises a format error for a failed check of the record, the
  error carries the line \<open>(k - 1) * 4 + offset\<close>: offset 0 for a missing \<open>@\<close> and
  for non-ASCII bytes, 2 for a missing \<open>+\<close> and for a second header that differs, 3 for
  lengths that differ.
\<close>

lemma raised_format_error_line:
  assumes "parse f cls sz n = Some (map Inr vs @ [Inl (FastqFormatError msg line)])"
    and "cls = Sequence_class \<or> cls = BytesSequence_class"
    and "msg \<noteq> PrematureEOF"
  shows "line = length (filter is_record vs) * 4 + format_offset msg"
proof (cases "FastqIter_cinit f cls sz")
  case (Inl e)
  with assms(1) have "map Inr vs @ [Inl (FastqFormatError msg line)] = [Inl e]"
    by (simp add: parse_def)
  then have "FastqFormatError msg line = e" by (cases vs) auto
  with Inl show ?thesis by (auto simp: FastqIter_cinit_def split: if_splits)
next
  case (Inr s)
  with assms(1) have o: "outcomes n s = Some (map Inr vs @ [Inl (FastqFormatError msg line)])"
    by (simp add: parse_def)
  from Inr assms(2) have i: "\<not> use_custom_class s" "number_of_records s = 0"
    by (auto simp: FastqIter_cinit_def split: if_splits)
  from outcomes_error_line [OF o i(1) assms(3)] i(2) show ?thesis by simp
qed

text \<open>
  Whether the error is raised. Once the four newlines of a record are in the buffer, a
  first byte other than \<open>@\<close> ends the call: with the format error and its line when
  the byte is below 128, and with the \<open>ValueError\<close> of \<open>chr\<close>, which has no line,
  when it is not. The same holds for the byte where \<open>+\<close> is expected.
\<close>

lemma emit_record_missing_at:
  assumes "buf s ! record_start s \<noteq> AT"
  shows "emit_record s p1 p2 p3 p4 =
     (if buf s ! record_start s < 128
      then Inl (FastqFormatError (ExpectedAt [unat (buf s ! record_start s)])
                  (number_of_records s * 4))
      else Inl (ValueError ChrArgNotInRange), s)"
  unfolding emit_record_def Let_def
  using assms by (simp add: chr_ascii chr_negative)

lemma emit_record_missing_plus:
  assumes "buf s ! record_start s = AT" "buf s ! (p2 + 1) \<noteq> PLUS"
  shows "emit_record s p1 p2 p3 p4 =
     (if buf s ! (p2 + 1) < 128
      then Inl (FastqFormatError (ExpectedPlus [unat (buf s ! (p2 + 1))])
                  (number_of_records s * 4 + 2))
      else Inl (ValueError ChrArgNotInRange), s)"
  unfolding emit_record_def Let_def
  using assms by (simp add: chr_ascii chr_negative)

lemma missing_at_outcome:
  assumes "\<not> eof s"
    and "four_newlines (buf s) (record_start s) (bufend s) = Some (p1, p2, p3, p4)"
    and "buf s ! record_start s \<noteq> AT"
  shows "fastq_next s =
     Some (if buf s ! record_start s < 128
           then Inl (FastqFormatError (ExpectedAt [unat (buf s ! record_start s)])
                       (number_of_records s * 4))
           else Inl (ValueError ChrArgNotInRange), s)"
  using assms by (subst fastq_next_unfold) (simp add: emit_record_missing_at)

lemma missing_plus_outcome:
  assumes "\<not> eof s"
    and "four_newlines (buf s) (record_start s) (bufend s) = Some (p1, p2, p3, p4)"
    and "buf s ! record_start s = AT" and "buf s ! (p2 + 1) \<noteq> PLUS"
  shows "fastq_next s =
     Some (if buf s ! (p2 + 1) < 128
           then Inl (FastqFormatError (ExpectedPlus [unat (buf s ! (p2 + 1))])
                       (number_of_records s * 4 + 2))
           else Inl (ValueError ChrArgNotInRange), s)"
  using assms by (subst fastq_next_unfold) (simp add: emit_record_missing_plus)

text \<open>
  Each check failing on the second record of an input, with ASCII bytes throughout but
  for the last example: \<open>X\<close> for \<open>@\<close> gives line 4, \<open>-\<close> for \<open>+\<close> line 6, a
  second header \<open>t\<close> behind the name \<open>s\<close> line 6, two bases with one quality line 7,
  and the byte \<open>0xE9\<close> in the sequence of a textual record line 4.
\<close>

lemma missing_at_example:
  "parse [[AT, 114, LF, 65, LF, PLUS, LF, 73, LF, 88, 115, LF, 65, LF, PLUS, LF, 73, LF]]
     (Sequence_class :: unit sequence_class) 32 3
   = Some [Inr (FirstValue False),
           Inr (SequenceRecord \<lparr>name = [114], sequence = [65], qualities = Some [73]\<rparr>),
           Inl (FastqFormatError (ExpectedAt [88]) 4)]"
  by code_simp

lemma missing_plus_example:
  "parse [[AT, 114, LF, 65, LF, PLUS, LF, 73, LF, AT, 115, LF, 65, LF, 45, LF, 73, LF]]
     (Sequence_class :: unit sequence_class) 32 3
   = Some [Inr (FirstValue False),
           Inr (SequenceRecord \<lparr>name = [114], sequence = [65], qualities = Some [73]\<rparr>),
           Inl (FastqFormatError (ExpectedPlus [45]) 6)]"
  by code_simp

lemma second_header_example:
  "parse [[AT, 114, LF, 65, LF, PLUS, LF, 73, LF, AT, 115, LF, 65, LF, PLUS, 116, LF, 73, LF]]
     (Sequence_class :: unit sequence_class) 32 3
   = Some [Inr (FirstValue False),
           Inr (SequenceRecord \<lparr>name = [114], sequence = [65], qualities = Some [73]\<rparr>),
           Inl (FastqFormatError DescriptionsDontMatch 6)]"
  by code_simp

lemma lengths_example:
  "parse [[AT, 114, LF, 65, LF, PLUS, LF, 73, LF, AT, 115, LF, 65, 67, LF, PLUS, LF, 73, LF]]
     (Sequence_class :: unit sequence_class) 64 3
   = Some [Inr (FirstValue False),
           Inr (SequenceRecord \<lparr>name = [114], sequence = [65], qualities = Some [73]\<rparr>),
           Inl (FastqFormatError LengthsDiffer 7)]"
  by code_simp

lemma non_ascii_example:
  "parse [[AT, 114, LF, 65, LF, PLUS, LF, 73, LF, AT, 115, LF, 233, LF, PLUS, LF, 73, LF]]
     (Sequence_class :: unit sequence_class) 32 3
   = Some [Inr (FirstValue False),
           Inr (SequenceRecord \<lparr>name = [114], sequence = [65], qualities = Some [73]\<rparr>),
           Inl (FastqFormatError NonAsciiFound 4)]"
  by code_simp

text \<open>
  C3 at three failing inputs. A file that starts with a UTF-8 byte order mark has the
  byte \<open>0xEF\<close> where the \<open>@\<close> of the first record is expected; the message of the
  format error is built with \<open>chr\<close> of that byte, a negative \<open>char\<close>, and the call
  raises the \<open>ValueError\<close> of \<open>chr\<close> instead of a format error with line 0. The same
  happens on the second record of an input with the byte \<open>0xB1\<close> for its \<open>+\<close>, where
  line 6 is due, and in the raw variant. With the ASCII byte \<open>X\<close> in the place of
  \<open>0xEF\<close> the format error is raised, with line 0.
\<close>

theorem format_error_lost_in_chr:
  "parse [[239, 187, 191, AT, 114, LF, 65, LF, PLUS, LF, 73, LF]]
     (Sequence_class :: unit sequence_class) 32 1
   = Some [Inl (ValueError ChrArgNotInRange)] \<and>
   parse [[AT, 114, LF, 65, LF, PLUS, LF, 73, LF, AT, 115, LF, 65, LF, 177, LF, 73, LF]]
     (Sequence_class :: unit sequence_class) 32 3
   = Some [Inr (FirstValue False),
           Inr (SequenceRecord \<lparr>name = [114], sequence = [65], qualities = Some [73]\<rparr>),
           Inl (ValueError ChrArgNotInRange)] \<and>
   parse [[239, 187, 191, AT, 114, LF, 65, LF, PLUS, LF, 73, LF]]
     (BytesSequence_class :: unit sequence_class) 32 1
   = Some [Inl (ValueError ChrArgNotInRange)] \<and>
   parse [[88, 187, 191, AT, 114, LF, 65, LF, PLUS, LF, 73, LF]]
     (Sequence_class :: unit sequence_class) 32 1
   = Some [Inl (FastqFormatError (ExpectedAt [88]) 0)]"
  by code_simp

text \<open>
  C4 at a failing input. One complete record is followed by an incomplete one that holds
  three newlines and ends in a newline. With a buffer of 32 bytes the whole input is read
  at once; the leftover is then moved to the front of the buffer before the newlines are
  counted at its old position, and the count is 4: the line reported is 8, not 7. With
  a buffer of 16 bytes the same input reports line 7.
\<close>

theorem premature_eof_line_after_shift:
  "parse [[AT, 114, LF, 65, LF, PLUS, LF, 73, LF,
           AT, 115, LF, 65, 67, 71, 84, 65, 67, 71, 84, 65, 67, LF, PLUS, LF]]
     (Sequence_class :: unit sequence_class) 32 3
   = Some [Inr (FirstValue False),
           Inr (SequenceRecord \<lparr>name = [114], sequence = [65], qualities = Some [73]\<rparr>),
           Inl (FastqFormatError PrematureEOF 8)] \<and>
   parse [[AT, 114, LF, 65, LF, PLUS, LF, 73, LF,
           AT, 115, LF, 65, 67, 71, 84, 65, 67, 71, 84, 65, 67, LF, PLUS, LF]]
     (Sequence_class :: unit sequence_class) 16 3
   = Some [Inr (FirstValue False),
           Inr (SequenceRecord \<lparr>name = [114], sequence = [65], qualities = Some [73]\<rparr>),
           Inl (FastqFormatError PrematureEOF 7)] \<and>
   count_lf [AT, 115, LF, 65, 67, 71, 84, 65, 67, 71, 84, 65, 67, LF, PLUS, LF] = 3"
  by code_simp

subsection \<open>The stream\<close>

lemma concat_dropWhile_empty: "concat (dropWhile (\<lambda>c. c = []) f) = concat f"
  by (induction f) auto

lemma dropWhile_empty_Nil: "dropWhile (\<lambda>c. c = []) f = [] \<longleftrightarrow> concat f = []"
  by (induction f) auto

lemma readinto_concat: "readinto f n = (d, f') \<Longrightarrow> d @ concat f' = concat f"
proof -
  assume a: "readinto f n = (d, f')"
  show ?thesis
  proof (cases "dropWhile (\<lambda>c. c = []) f")
    case Nil
    with a have "d = []" "f' = []" by (simp_all add: readinto_def)
    moreover from Nil have "concat f = []" by (simp add: dropWhile_empty_Nil)
    ultimately show ?thesis by simp
  next
    case (Cons c cs)
    with a have "d = take n c" "f' = drop n c # cs" by (simp_all add: readinto_def)
    then have "d @ concat f' = concat (c # cs)" by simp
    with Cons concat_dropWhile_empty [of f] show ?thesis by simp
  qed
qed

lemma readinto_length: "readinto f n = (d, f') \<Longrightarrow> length d \<le> n"
  by (auto simp: readinto_def split: list.splits)

lemma readinto_exhausted: "concat f = [] \<Longrightarrow> readinto f n = ([], [])"
  by (simp add: readinto_def dropWhile_empty_Nil [THEN iffD2])

lemma readinto_progress:
  assumes "readinto f n = (d, f')" "0 < n" "concat f \<noteq> []"
  shows "d \<noteq> []"
proof (cases "dropWhile (\<lambda>c. c = []) f")
  case Nil
  with assms(3) show ?thesis by (simp add: dropWhile_empty_Nil)
next
  case (Cons c cs)
  with hd_dropWhile [of "\<lambda>c. c = []" f] have "c \<noteq> []" by simp
  with assms Cons show ?thesis by (auto simp: readinto_def)
qed

subsection \<open>Searching for newlines\<close>

lemma memchr_Some:
  "memchr b st c n = Some p \<Longrightarrow> st \<le> p \<and> p < st + n \<and> b ! p = c"
proof (induction n arbitrary: st)
  case 0
  then show ?case by simp
next
  case (Suc n)
  show ?case
  proof (cases "b ! st = c")
    case True
    with Suc.prems show ?thesis by simp
  next
    case False
    with Suc.prems have "memchr b (Suc st) c n = Some p" by simp
    from Suc.IH [OF this] show ?thesis by simp
  qed
qed

lemma memchr_first:
  "c \<notin> set mid \<Longrightarrow> length mid < n \<Longrightarrow>
   memchr (pre @ mid @ c # rest) (length pre) c n = Some (length pre + length mid)"
proof (induction mid arbitrary: pre n)
  case Nil
  then obtain k where "n = Suc k" by (cases n) auto
  then show ?case by simp
next
  case (Cons x mid)
  then obtain k where n: "n = Suc k" by (cases n) auto
  from Cons.prems have "c \<notin> set mid" "length mid < k" "x \<noteq> c" using n by auto
  from Cons.IH [OF this(1,2), of "pre @ [x]"] this(3) show ?case
    by (simp add: n nth_append)
qed

lemma count_lf_past:
  assumes "q \<le> p" "p < length b" "b ! p = LF"
  shows "Suc (count_lf (take q b)) \<le> count_lf (take (Suc p) b)"
proof -
  have "count_lf (take (Suc p) b) = Suc (count_lf (take p b))"
    using assms by (simp add: count_lf_take_Suc)
  moreover have "count_lf (take q b) \<le> count_lf (take p b)"
    using assms(1) by (rule count_lf_take_mono)
  ultimately show ?thesis by simp
qed

lemma four_newlines_count:
  assumes "four_newlines b st e = Some (p1, p2, p3, p4)" "e \<le> length b"
  shows "4 \<le> count_lf (take e b)"
proof -
  from assms(1) have m: "memchr b st LF (e - st) = Some p1"
    "memchr b (p1 + 1) LF (e - (p1 + 1)) = Some p2"
    "memchr b (p2 + 1) LF (e - (p2 + 1)) = Some p3"
    "memchr b (p3 + 1) LF (e - (p3 + 1)) = Some p4"
    by (auto simp: four_newlines_def split: option.splits)
  note f1 = memchr_Some [OF m(1)] and f2 = memchr_Some [OF m(2)]
    and f3 = memchr_Some [OF m(3)] and f4 = memchr_Some [OF m(4)]
  have lf: "b ! p1 = LF" "b ! p2 = LF" "b ! p3 = LF" "b ! p4 = LF"
    using f1 f2 f3 f4 by simp_all
  have lt: "p1 < length b" "p2 < length b" "p3 < length b" "p4 < length b"
    "Suc p1 \<le> p2" "Suc p2 \<le> p3" "Suc p3 \<le> p4" "Suc p4 \<le> e"
    using f1 f2 f3 f4 assms(2) by linarith+
  have "Suc (count_lf (take 0 b)) \<le> count_lf (take (Suc p1) b)"
    using lt lf by (intro count_lf_past) auto
  moreover have "Suc (count_lf (take (Suc p1) b)) \<le> count_lf (take (Suc p2) b)"
    using lt lf by (intro count_lf_past) auto
  moreover have "Suc (count_lf (take (Suc p2) b)) \<le> count_lf (take (Suc p3) b)"
    using lt lf by (intro count_lf_past) auto
  moreover have "Suc (count_lf (take (Suc p3) b)) \<le> count_lf (take (Suc p4) b)"
    using lt lf by (intro count_lf_past) auto
  moreover have "count_lf (take (Suc p4) b) \<le> count_lf (take e b)"
    using lt by (intro count_lf_take_mono) auto
  ultimately show ?thesis by linarith
qed

lemma four_newlines_few:
  "count_lf (take e b) < 4 \<Longrightarrow> e \<le> length b \<Longrightarrow> four_newlines b st e = None"
  using four_newlines_count [of b st e] by (cases "four_newlines b st e") auto

subsection \<open>Loading the input\<close>

lemma refilled_self:
  "record_start s = 0 \<Longrightarrow> refilled s (buffer_size s) (buf s) (file s) (bufend s) = s"
  by (simp add: refilled_def)

lemma refilled_refilled [simp]:
  "refilled (refilled s z b f e) z' b' f' e' = refilled s z' b' f' e'"
  by (simp add: refilled_def)

lemma make_room_at_start:
  assumes "record_start s = 0" "bufend s \<le> length (buf s)" "length (buf s) = buffer_size s"
    "0 < buffer_size s"
  shows "\<exists>z b. make_room s = (s\<lparr>buffer_size := z, buf := b\<rparr>, bufend s) \<and>
           take (bufend s) b = take (bufend s) (buf s) \<and> bufend s < length b \<and>
           length b = z"
proof (cases "bufend s = length (buf s)")
  case True
  let ?b = "slice_assign (replicate (buffer_size s * 2) 0) 0 (bufend s) (buf s)"
  have "make_room s = (s\<lparr>buffer_size := buffer_size s * 2, buf := ?b\<rparr>, bufend s)"
    using assms(1) True by (simp add: make_room_def Let_def)
  moreover have "?b = buf s @ replicate (buffer_size s) 0"
    using True assms(3) by (simp add: slice_assign_def)
  ultimately have "make_room s =
      (s\<lparr>buffer_size := buffer_size s * 2, buf := buf s @ replicate (buffer_size s) 0\<rparr>,
       bufend s) \<and>
    take (bufend s) (buf s @ replicate (buffer_size s) 0) = take (bufend s) (buf s) \<and>
    bufend s < length (buf s @ replicate (buffer_size s) 0) \<and>
    length (buf s @ replicate (buffer_size s) 0) = buffer_size s * 2"
    using True assms(3,4) by simp
  then show ?thesis by blast
next
  case False
  have "slice_assign (buf s) 0 (bufend s) (py_slice (buf s) 0 (bufend s)) = buf s"
    by (simp add: slice_assign_def py_slice_def)
  then have "make_room s = (s\<lparr>buffer_size := buffer_size s, buf := buf s\<rparr>, bufend s)"
    using assms(1) False by (simp add: make_room_def Let_def)
  with False assms(2,3) show ?thesis by (intro exI conjI) (assumption, simp_all)
qed

lemma length_slice_assign:
  "i + length d \<le> length b \<Longrightarrow> length (slice_assign b i (i + length d) d) = length b"
  by (simp add: slice_assign_def)

lemma take_slice_assign:
  "i \<le> length b \<Longrightarrow> take (i + length d) (slice_assign b i (i + length d) d) = take i b @ d"
  by (simp add: slice_assign_def)

lemma fill_from_file_eq:
  "readinto (file s) (length (buf s) - bs) = (d, f') \<Longrightarrow>
   fill_from_file s bs =
     s\<lparr>file := f', buf := slice_assign (buf s) bs (bs + length d) d, bufend := length d + bs\<rparr>"
  by (simp add: fill_from_file_def)

lemma read_more:
  assumes l: "loading s F" and more: "concat (file s) \<noteq> []"
  shows "\<exists>z b f e. read_into_buffer s = (None, refilled s z b f e) \<and>
           loading (refilled s z b f e) F \<and> length (concat f) < length (concat (file s))"
proof -
  from l have s: "\<not> eof s" "record_start s = 0" "bufend s \<le> length (buf s)"
    "length (buf s) = buffer_size s" "0 < buffer_size s"
    "take (bufend s) (buf s) @ concat (file s) = F"
    by (simp_all add: loading_def)
  from make_room_at_start [OF s(2-5)]
  obtain z b where mr: "make_room s = (s\<lparr>buffer_size := z, buf := b\<rparr>, bufend s)"
    and b: "take (bufend s) b = take (bufend s) (buf s)" "bufend s < length b" "length b = z"
    by blast
  let ?s1 = "s\<lparr>buffer_size := z, buf := b\<rparr>"
  obtain d f' where rd: "readinto (file s) (length b - bufend s) = (d, f')"
    by (cases "readinto (file s) (length b - bufend s)")
  from readinto_concat [OF rd] have cat: "d @ concat f' = concat (file s)" .
  from readinto_length [OF rd] b(2) have dl: "bufend s + length d \<le> length b" by simp
  from readinto_progress [OF rd _ more] b(2) have dn: "d \<noteq> []" by simp
  let ?b2 = "slice_assign b (bufend s) (bufend s + length d) d"
  have ff: "fill_from_file ?s1 (bufend s) =
      ?s1\<lparr>file := f', buf := ?b2, bufend := length d + bufend s\<rparr>"
    using fill_from_file_eq [of ?s1 "bufend s" d f'] rd by simp
  have run: "read_into_buffer s = (None, refilled s z ?b2 f' (length d + bufend s))"
    using dn b(2) by (simp add: read_into_buffer_def mr ff refilled_def)
  have lb2: "length ?b2 = z" using dl b(3) by (simp add: length_slice_assign)
  have tb2: "take (length d + bufend s) ?b2 = take (bufend s) (buf s) @ d"
    using take_slice_assign [of "bufend s" b d] b by (simp add: add.commute)
  have "loading (refilled s z ?b2 f' (length d + bufend s)) F"
    using s lb2 tb2 cat dl b by (simp add: loading_def refilled_def)
  moreover have "length (concat f') < length (concat (file s))"
    using cat dn by (metis length_append length_greater_0_conv less_add_same_cancel2)
  ultimately show ?thesis using run by blast
qed

lemma loading_length:
  "loading s F \<Longrightarrow> length F = bufend s + length (concat (file s))"
  by (auto simp: loading_def)

lemma loading_take:
  assumes "loading s F"
  shows "take (bufend s) (buf s) = take (bufend s) F"
proof -
  from assms have "take (bufend s) (buf s) @ concat (file s) = F"
    and "bufend s \<le> length (buf s)"
    by (simp_all add: loading_def)
  then show ?thesis by (metis append_eq_conv_conj length_take min.absorb2)
qed

lemma load_all:
  assumes "loading s F" and "\<forall>n<length F. count_lf (take n F) < 4"
  shows "\<exists>z b f. fastq_next s = fastq_next (refilled s z b f (length F)) \<and>
           loading (refilled s z b f (length F)) F \<and> concat f = []"
  using assms(1)
proof (induction "length (concat (file s))" arbitrary: s rule: less_induct)
  case less
  note l = less.prems
  from l have s: "\<not> eof s" "record_start s = 0" "bufend s \<le> length (buf s)"
    by (simp_all add: loading_def)
  show ?case
  proof (cases "concat (file s) = []")
    case True
    with loading_length [OF l] have "length F = bufend s" by simp
    with s(2) l True have "fastq_next s =
        fastq_next (refilled s (buffer_size s) (buf s) (file s) (length F)) \<and>
        loading (refilled s (buffer_size s) (buf s) (file s) (length F)) F \<and>
        concat (file s) = []"
      by (simp add: refilled_self)
    then show ?thesis by blast
  next
    case False
    with loading_length [OF l] have lt: "bufend s < length F" by simp
    with assms(2) loading_take [OF l] have "count_lf (take (bufend s) (buf s)) < 4" by simp
    from four_newlines_few [OF this s(3)]
    have none: "four_newlines (buf s) (record_start s) (bufend s) = None" .
    from read_more [OF l False]
    obtain z b f e where rd: "read_into_buffer s = (None, refilled s z b f e)"
      and l1: "loading (refilled s z b f e) F"
      and m: "length (concat f) < length (concat (file s))" by blast
    have nx: "fastq_next s = fastq_next (refilled s z b f e)"
      using s(1) none rd by (subst fastq_next_unfold) simp
    have "length (concat (file (refilled s z b f e))) < length (concat (file s))"
      using m by (simp add: refilled_def)
    from less.hyps [OF this l1] nx show ?thesis by simp
  qed
qed

lemma read_adds_newline:
  assumes l: "loading s F" and fin: "concat (file s) = []"
    and ne: "F \<noteq> []" and nl: "last F \<noteq> LF"
  shows "\<exists>z b. read_into_buffer s =
             (None, (refilled s z b [] (Suc (length F)))\<lparr>extra_newline := True\<rparr>) \<and>
           take (Suc (length F)) b = F @ [LF] \<and> Suc (length F) \<le> length b \<and> length b = z"
proof -
  from l have s: "\<not> eof s" "record_start s = 0" "bufend s \<le> length (buf s)"
    "length (buf s) = buffer_size s" "0 < buffer_size s"
    by (simp_all add: loading_def)
  from loading_length [OF l] fin have e: "bufend s = length F" by simp
  from loading_take [OF l] e have tk: "take (length F) (buf s) = F" by simp
  from make_room_at_start [OF s(2-5)]
  obtain z b where mr: "make_room s = (s\<lparr>buffer_size := z, buf := b\<rparr>, bufend s)"
    and b: "take (bufend s) b = take (bufend s) (buf s)" "bufend s < length b" "length b = z"
    by blast
  let ?s1 = "s\<lparr>buffer_size := z, buf := b\<rparr>"
  have rd: "readinto (file s) (length b - bufend s) = ([], [])"
    using fin by (rule readinto_exhausted)
  have ff: "fill_from_file ?s1 (length F) = ?s1\<lparr>file := [], buf := b, bufend := length F\<rparr>"
    using fill_from_file_eq [of ?s1 "bufend s" "[]" "[]"] rd e
    by (simp add: slice_assign_def)
  from b(1) tk e have tb: "take (length F) b = F" by simp
  have "b ! (length F - 1) = F ! (length F - 1)"
    using tb ne by (metis diff_less length_greater_0_conv nth_take zero_less_one)
  with ne nl have lastb: "b ! (length F - 1) \<noteq> LF" by (simp add: last_conv_nth)
  have pos: "0 < length F" using ne by simp
  have run: "read_into_buffer s =
      (None, (refilled s z (b[length F := LF]) [] (Suc (length F)))\<lparr>extra_newline := True\<rparr>)"
    using b(2) e lastb pos
    by (simp add: read_into_buffer_def mr ff end_of_file_def refilled_def Let_def)
  have "take (Suc (length F)) (b[length F := LF]) = F @ [LF]"
    using tb b(2) e by (intro take_store) simp_all
  with run b e show ?thesis by (intro exI conjI) (assumption, simp_all)
qed

lemma read_at_end:
  assumes "\<not> eof t" "record_start t = bufend t" "0 < bufend t" "bufend t \<le> length (buf t)"
    "concat (file t) = []"
  shows "\<exists>t'. fastq_next t = Some (Inl StopIteration, t')"
proof -
  have none: "four_newlines (buf t) (record_start t) (bufend t) = None"
    using assms(2) by (simp add: four_newlines_def)
  have mr: "make_room t = (t, 0)"
    using assms(2,3) by (simp add: make_room_def slice_assign_def py_slice_def)
  have rd: "readinto (file t) (length (buf t) - 0) = ([], [])"
    using assms(5) by (rule readinto_exhausted)
  have ff: "fill_from_file t 0 = t\<lparr>file := [], bufend := 0\<rparr>"
    using fill_from_file_eq [of t 0 "[]" "[]"] rd
    by (simp add: slice_assign_def)
  have nonempty: "buf t \<noteq> []" using assms(3,4) by auto
  have run: "read_into_buffer t =
      (None, t\<lparr>file := [], buf := buf t, bufend := 0, eof := True, record_start := 0\<rparr>)"
    using assms(2,3,4) nonempty
    by (simp add: read_into_buffer_def mr ff end_of_file_def Let_def)
  have "fastq_next t =
      fastq_next (t\<lparr>file := [], buf := buf t, bufend := 0, eof := True, record_start := 0\<rparr>)"
    using assms(1) none run by (subst fastq_next_unfold) simp
  also have "\<dots> = Some (Inl StopIteration,
      t\<lparr>file := [], buf := buf t, bufend := 0, eof := True, record_start := 0\<rparr>)"
    by (subst fastq_next_unfold) simp
  finally show ?thesis by blast
qed

subsection \<open>A serialized record in the buffer\<close>

lemma nth_last_prefix: "xs \<noteq> [] \<Longrightarrow> (xs @ rest) ! (length xs - 1) = last xs"
  by (simp add: nth_append last_conv_nth)

lemma py_slice_mid: "py_slice (pre @ mid @ rest) (length pre) (length pre + length mid) = mid"
  by (simp add: py_slice_def)

lemma strncmp_prefix: "strncmp (xs @ r1) (xs @ r2) (length xs) = 0"
  by (induction xs) auto

lemma memchr_found:
  assumes "b = pre @ mid @ c # rest" "c \<notin> set mid" "st = length pre" "length mid < n"
    "p = length pre + length mid"
  shows "memchr b st c n = Some p"
  using memchr_first [of c mid n pre rest] assms by simp

lemma wire_newlines:
  assumes lf: "LF \<notin> set nm" "LF \<notin> set sq" "LF \<notin> set ql"
    and h: "h = (if th then nm else [])"
    and p: "p1 = length nm + 1" "p2 = p1 + 1 + length sq" "p3 = p2 + 2 + length h"
      "p4 = p3 + 1 + length ql"
  shows "four_newlines (fastq_wire nm sq ql th @ junk) 0 (p4 + 1) = Some (p1, p2, p3, p4)"
proof -
  let ?b = "fastq_wire nm sq ql th @ junk"
  have lfh: "LF \<notin> set h" using lf h by simp
  have m1: "memchr ?b 0 LF (p4 + 1 - 0) = Some p1"
    by (rule memchr_found [where pre = "[]" and mid = "[AT] @ nm"
          and rest = "sq @ [LF] @ [PLUS] @ h @ [LF] @ ql @ [LF] @ junk"])
       (simp_all add: fastq_wire_def h p lf)
  have m2: "memchr ?b (p1 + 1) LF (p4 + 1 - (p1 + 1)) = Some p2"
    by (rule memchr_found [where pre = "[AT] @ nm @ [LF]" and mid = sq
          and rest = "[PLUS] @ h @ [LF] @ ql @ [LF] @ junk"])
       (simp_all add: fastq_wire_def h p lf)
  have m3: "memchr ?b (p2 + 1) LF (p4 + 1 - (p2 + 1)) = Some p3"
    by (rule memchr_found [where pre = "[AT] @ nm @ [LF] @ sq @ [LF]" and mid = "[PLUS] @ h"
          and rest = "ql @ [LF] @ junk"])
       (simp_all add: fastq_wire_def h p lf)
  have m4: "memchr ?b (p3 + 1) LF (p4 + 1 - (p3 + 1)) = Some p4"
    by (rule memchr_found [where pre = "[AT] @ nm @ [LF] @ sq @ [LF] @ [PLUS] @ h @ [LF]"
          and mid = ql and rest = junk])
       (simp_all add: fastq_wire_def h p lf)
  show ?thesis
    unfolding four_newlines_def by (simp only: m1 m2 m3 m4 option.case)
qed

lemma nth_at: "b = pre @ x # rest \<Longrightarrow> i = length pre \<Longrightarrow> b ! i = x"
  by simp

lemma nth_before:
  "b = xs @ rest \<Longrightarrow> xs \<noteq> [] \<Longrightarrow> i = length xs - 1 \<Longrightarrow> last xs \<noteq> c \<Longrightarrow> b ! i \<noteq> c"
  using nth_last_prefix [of xs rest] by simp

lemma py_slice_at:
  "b = pre @ mid @ rest \<Longrightarrow> i = length pre \<Longrightarrow> j = length pre + length mid \<Longrightarrow>
   py_slice b i j = mid"
  using py_slice_mid [of pre mid rest] by simp

lemma emit_record_wire:
  fixes s :: "'r FastqIter"
  assumes b: "buf s = fastq_wire nm sq ql th @ junk" and rs: "record_start s = 0"
    and cr: "nm = [] \<or> last nm \<noteq> CR" "sq = [] \<or> last sq \<noteq> CR" "ql = [] \<or> last ql \<noteq> CR"
    and len: "length ql = length sq"
    and h: "h = (if th then nm else [])"
    and p: "p1 = length nm + 1" "p2 = p1 + 1 + length sq" "p3 = p2 + 2 + length h"
      "p4 = p3 + 1 + length ql"
  shows "emit_record s p1 p2 p3 p4 =
     (if number_of_records s = 0 \<and> \<not> yielded_two_headers s
      then (Inr (FirstValue (h \<noteq> [])), s\<lparr>yielded_two_headers := True\<rparr>)
      else if save_as_bytes s
      then (Inr (BytesRecord \<lparr>bname = nm, bsequence = sq, bqualities = ql\<rparr>),
            s\<lparr>number_of_records := number_of_records s + 1, record_start := p4 + 1\<rparr>)
      else if \<not> string_is_ascii (py_slice (buf s) 0 p4)
      then (Inl (FastqFormatError NonAsciiFound (number_of_records s * 4)), s)
      else if use_custom_class s
      then (case call_sequence_class (sequence_class s) (ascii_str nm) (ascii_str sq)
                   (ascii_str ql) of
              Inl e \<Rightarrow> (Inl e, s)
            | Inr ret_val \<Rightarrow>
                (Inr ret_val,
                 s\<lparr>number_of_records := number_of_records s + 1, record_start := p4 + 1\<rparr>))
      else (Inr (SequenceRecord
                   \<lparr>name = ascii_str nm, sequence = ascii_str sq,
                    qualities = Some (ascii_str ql)\<rparr>),
            s\<lparr>number_of_records := number_of_records s + 1, record_start := p4 + 1\<rparr>))"
proof -
  let ?b = "buf s"
  have at: "?b ! record_start s = AT"
    by (simp add: b rs fastq_wire_def)
  have plus: "?b ! (p2 + 1) = PLUS"
    by (rule nth_at [where pre = "[AT] @ nm @ [LF] @ sq @ [LF]"
          and rest = "h @ [LF] @ ql @ [LF] @ junk"])
       (simp_all add: b fastq_wire_def h p)
  have c1: "?b ! (p1 - 1) \<noteq> CR"
    by (rule nth_before [where xs = "[AT] @ nm"
          and rest = "[LF] @ sq @ [LF] @ [PLUS] @ h @ [LF] @ ql @ [LF] @ junk"])
       (use cr in \<open>auto simp: b fastq_wire_def h p\<close>)
  have c2: "?b ! (p2 - 1) \<noteq> CR"
    by (rule nth_before [where xs = "[AT] @ nm @ [LF] @ sq"
          and rest = "[LF] @ [PLUS] @ h @ [LF] @ ql @ [LF] @ junk"])
       (use cr in \<open>auto simp: b fastq_wire_def h p\<close>)
  have c3: "?b ! (p3 - 1) \<noteq> CR"
    by (rule nth_before [where xs = "[AT] @ nm @ [LF] @ sq @ [LF] @ [PLUS] @ h"
          and rest = "[LF] @ ql @ [LF] @ junk"])
       (use cr in \<open>auto simp: b fastq_wire_def h p\<close>)
  have c4: "?b ! (p4 - 1) \<noteq> CR"
    by (rule nth_before [where xs = "[AT] @ nm @ [LF] @ sq @ [LF] @ [PLUS] @ h @ [LF] @ ql"
          and rest = "[LF] @ junk"])
       (use cr in \<open>auto simp: b fastq_wire_def h p\<close>)
  have l1: "p1 - (record_start s + 1) = length nm" by (simp add: p rs)
  have l2: "p2 - (p1 + 1) = length sq" by (simp add: p)
  have l3: "p3 - (p2 + 1 + 1) = length h" by (simp add: p)
  have l4: "p4 - (p3 + 1) = length sq" by (simp add: p len)
  have d1: "drop (record_start s + 1) ?b = nm @ [LF] @ sq @ [LF] @ [PLUS] @ h @ [LF] @ ql @ [LF] @ junk"
    by (simp add: b rs fastq_wire_def h)
  have d2: "drop (p2 + 1 + 1) ?b = h @ [LF] @ ql @ [LF] @ junk"
  proof -
    have "?b = ([AT] @ nm @ [LF] @ sq @ [LF] @ [PLUS]) @ (h @ [LF] @ ql @ [LF] @ junk)"
      by (simp add: b fastq_wire_def h)
    moreover have "p2 + 1 + 1 = length ([AT] @ nm @ [LF] @ sq @ [LF] @ [PLUS])"
      by (simp add: p)
    ultimately show ?thesis by (metis append_eq_conv_conj)
  qed
  have cmp: "h \<noteq> [] \<Longrightarrow>
      strncmp (drop (p2 + 1 + 1) ?b) (drop (record_start s + 1) ?b) (length h) = 0"
    unfolding d1 d2
    using strncmp_prefix [of nm "[LF] @ ql @ [LF] @ junk"
        "[LF] @ sq @ [LF] @ [PLUS] @ h @ [LF] @ ql @ [LF] @ junk"]
    by (simp add: h split: if_splits)
  have hl: "h \<noteq> [] \<Longrightarrow> length nm = length h" by (simp add: h split: if_splits)
  have s1: "py_slice ?b (record_start s + 1) (record_start s + 1 + length nm) = nm"
    by (rule py_slice_at [where pre = "[AT]"
          and rest = "[LF] @ sq @ [LF] @ [PLUS] @ h @ [LF] @ ql @ [LF] @ junk"])
       (simp_all add: b rs fastq_wire_def h)
  have s2: "py_slice ?b (p1 + 1) (p1 + 1 + length sq) = sq"
    by (rule py_slice_at [where pre = "[AT] @ nm @ [LF]"
          and rest = "[LF] @ [PLUS] @ h @ [LF] @ ql @ [LF] @ junk"])
       (simp_all add: b fastq_wire_def h p)
  have s3: "py_slice ?b (p3 + 1) (p3 + 1 + length sq) = ql"
    by (rule py_slice_at [where pre = "[AT] @ nm @ [LF] @ sq @ [LF] @ [PLUS] @ h @ [LF]"
          and rest = "[LF] @ junk"])
       (simp_all add: b fastq_wire_def h p len)
  show ?thesis
    unfolding emit_record_def Let_def
    apply (simp only: at plus c1 c2 c3 c4 l1 l2 l3 l4 s1 s2 s3 if_False if_True
          not_False_eq_True simp_thms)
    using cmp hl rs
    apply (cases "h = []")
     apply simp_all
    done
qed

lemma string_is_ascii_append [simp]:
  "string_is_ascii (xs @ ys) \<longleftrightarrow> string_is_ascii xs \<and> string_is_ascii ys"
  by (simp add: string_is_ascii_def)

lemma string_is_ascii_Cons [simp]:
  "string_is_ascii (x # xs) \<longleftrightarrow> x < 128 \<and> string_is_ascii xs"
  by (simp add: string_is_ascii_def)

lemma string_is_ascii_Nil [simp]: "string_is_ascii []"
  by (simp add: string_is_ascii_def)

lemma parse_loaded_record:
  fixes t :: "'r FastqIter"
  assumes full: "\<not> eof t" "record_start t = 0" "bufend t = length W"
      "take (length W) (buf t) = W" "length W \<le> length (buf t)" "concat (file t) = []"
    and fresh: "number_of_records t = 0" "\<not> yielded_two_headers t"
    and W: "W = fastq_wire nm sq ql th"
    and lf: "LF \<notin> set nm" "LF \<notin> set sq" "LF \<notin> set ql"
    and cr: "nm = [] \<or> last nm \<noteq> CR" "sq = [] \<or> last sq \<noteq> CR" "ql = [] \<or> last ql \<noteq> CR"
    and len: "length ql = length sq"
    and v: "save_as_bytes t \<and> v = BytesRecord \<lparr>bname = nm, bsequence = sq, bqualities = ql\<rparr> \<or>
       \<not> save_as_bytes t \<and> \<not> use_custom_class t \<and>
       string_is_ascii nm \<and> string_is_ascii sq \<and> string_is_ascii ql \<and>
       v = SequenceRecord \<lparr>name = ascii_str nm, sequence = ascii_str sq,
                            qualities = Some (ascii_str ql)\<rparr>"
  shows "outcomes 3 t = Some [Inr (FirstValue (th \<and> nm \<noteq> [])), Inr v, Inl StopIteration]"
proof -
  define h where "h = (if th then nm else [])"
  define p1 where "p1 = length nm + 1"
  define p2 where "p2 = p1 + 1 + length sq"
  define p3 where "p3 = p2 + 2 + length h"
  define p4 where "p4 = p3 + 1 + length ql"
  define junk where "junk = drop (length W) (buf t)"
  have b: "buf t = fastq_wire nm sq ql th @ junk"
    using full(4) W by (metis append_take_drop_id junk_def)
  have lW: "length W = p4 + 1"
    by (simp add: W fastq_wire_def p4_def p3_def p2_def p1_def h_def)
  have four: "four_newlines (buf t) 0 (p4 + 1) = Some (p1, p2, p3, p4)"
    unfolding b by (rule wire_newlines [OF lf h_def p1_def p2_def p3_def p4_def])
  have hne: "h \<noteq> [] \<longleftrightarrow> th \<and> nm \<noteq> []" by (simp add: h_def)
  let ?t1 = "t\<lparr>yielded_two_headers := True\<rparr>"
  let ?t2 = "?t1\<lparr>number_of_records := number_of_records ?t1 + 1, record_start := p4 + 1\<rparr>"
  have e1: "emit_record t p1 p2 p3 p4 = (Inr (FirstValue (th \<and> nm \<noteq> [])), ?t1)"
    using emit_record_wire [OF b full(2) cr len h_def p1_def p2_def p3_def p4_def] fresh hne
    by simp
  have n1: "fastq_next t = Some (Inr (FirstValue (th \<and> nm \<noteq> [])), ?t1)"
    using full(1-3) four e1 lW by (subst fastq_next_unfold) simp
  have asc: "py_slice (buf t) 0 p4 = [AT] @ nm @ [LF] @ sq @ [LF] @ [PLUS] @ h @ [LF] @ ql"
    by (rule py_slice_at [where pre = "[]" and rest = "[LF] @ junk"])
       (simp_all add: b fastq_wire_def h_def p4_def p3_def p2_def p1_def)
  have asc2: "string_is_ascii nm \<Longrightarrow> string_is_ascii sq \<Longrightarrow> string_is_ascii ql \<Longrightarrow>
      string_is_ascii (py_slice (buf t) 0 p4)"
    unfolding asc by (simp add: h_def)
  have e2: "emit_record ?t1 p1 p2 p3 p4 = (Inr v, ?t2)"
    using emit_record_wire [of ?t1 nm sq ql th junk h p1 p2 p3 p4] b full(2) cr len
      h_def p1_def p2_def p3_def p4_def v asc2
    by auto
  have n2: "fastq_next ?t1 = Some (Inr v, ?t2)"
    using full(1-3) four e2 lW by (subst fastq_next_unfold) simp
  have "\<exists>t'. fastq_next ?t2 = Some (Inl StopIteration, t')"
    using full lW by (intro read_at_end) simp_all
  then obtain t3 where n3: "fastq_next ?t2 = Some (Inl StopIteration, t3)" by blast
  show ?thesis
    using n1 n2 n3 by (simp add: numeral_3_eq_3)
qed

lemma cinit_loading:
  assumes "1 \<le> sz"
  shows "\<exists>s0. FastqIter_cinit f cls sz = Inr s0 \<and> loading s0 (concat f) \<and>
           number_of_records s0 = 0 \<and> \<not> yielded_two_headers s0 \<and>
           save_as_bytes s0 = (cls = BytesSequence_class) \<and>
           use_custom_class s0 = (\<exists>c. cls = Custom_class c)"
  using assms by (cases cls) (simp_all add: FastqIter_cinit_def loading_def)

lemma outcomes_3_cong: "fastq_next s = fastq_next t \<Longrightarrow> outcomes 3 s = outcomes 3 t"
  by (simp add: numeral_3_eq_3)

text \<open>
  C5. The input \<open>@r\nA\n+\nI\<close>, without a final newline, delivered in any chunks to
  a parser for \<open>Sequence\<close> records with any initial buffer size: the first call returns
  \<open>False\<close>, the second the record \<open>(name="r", sequence="A", qualities="I")\<close>, and the
  third raises \<open>StopIteration\<close>.
\<close>

theorem missing_final_newline_accepted:
  assumes "concat f = [AT, 114, LF, 65, LF, PLUS, LF, 73]" and "1 \<le> sz"
  shows "parse f Sequence_class sz 3 =
     Some [Inr (FirstValue False),
           Inr (SequenceRecord \<lparr>name = [114], sequence = [65], qualities = Some [73]\<rparr>),
           Inl StopIteration]"
proof -
  define F :: "byte list" where "F = [AT, 114, LF, 65, LF, PLUS, LF, 73]"
  have lenF: "length F = 8" by (simp add: F_def)
  have cF: "count_lf F = 3" by (simp add: F_def count_lf_def)
  from cinit_loading [OF assms(2), of f Sequence_class]
  obtain s0 :: "'a FastqIter" where s0: "FastqIter_cinit f Sequence_class sz = Inr s0"
    and l0: "loading s0 F" and fresh: "number_of_records s0 = 0" "\<not> yielded_two_headers s0"
    and cls: "\<not> save_as_bytes s0" "\<not> use_custom_class s0"
    using assms(1) by (auto simp: F_def)
  have few: "\<forall>n<length F. count_lf (take n F) < 4"
  proof (intro allI impI)
    fix n
    from count_lf_take_le [of n F] cF show "count_lf (take n F) < 4" by simp
  qed
  from load_all [OF l0 few] obtain z b f'
    where n0: "fastq_next s0 = fastq_next (refilled s0 z b f' (length F))"
      and l1: "loading (refilled s0 z b f' (length F)) F" and ex: "concat f' = []"
    by blast
  let ?t = "refilled s0 z b f' (length F)"
  have t: "\<not> eof ?t" "bufend ?t \<le> length (buf ?t)" "bufend ?t = length F"
    "file ?t = f'" "record_start ?t = 0"
    using l1 by (simp_all add: loading_def refilled_def)
  have "count_lf (take (bufend ?t) (buf ?t)) < 4"
    using loading_take [OF l1] cF t(3) by simp
  from four_newlines_few [OF this t(2)]
  have none: "four_newlines (buf ?t) (record_start ?t) (bufend ?t) = None" .
  have "concat (file ?t) = []" "F \<noteq> []" "last F \<noteq> LF"
    using ex t(4) by (simp_all add: F_def)
  from read_adds_newline [OF l1 this] obtain z' b'
    where rd: "read_into_buffer ?t =
        (None, (refilled ?t z' b' [] (Suc (length F)))\<lparr>extra_newline := True\<rparr>)"
      and b': "take (Suc (length F)) b' = F @ [LF]" "Suc (length F) \<le> length b'"
    by blast
  let ?u = "(refilled ?t z' b' [] (Suc (length F)))\<lparr>extra_newline := True\<rparr>"
  have n1: "fastq_next ?t = fastq_next ?u"
    using t(1) none rd by (subst fastq_next_unfold) simp
  have W: "F @ [LF] = fastq_wire [114] [65] [73] False"
    by (simp add: F_def fastq_wire_def)
  have u: "\<not> eof ?u" "record_start ?u = 0" "bufend ?u = length (F @ [LF])"
    "take (length (F @ [LF])) (buf ?u) = F @ [LF]" "length (F @ [LF]) \<le> length (buf ?u)"
    "concat (file ?u) = []" "number_of_records ?u = 0" "\<not> yielded_two_headers ?u"
    "\<not> save_as_bytes ?u" "\<not> use_custom_class ?u"
    using t b' fresh cls by (simp_all add: refilled_def)
  have "outcomes 3 ?u =
     Some [Inr (FirstValue (False \<and> [114 :: byte] \<noteq> [])),
           Inr (SequenceRecord \<lparr>name = [114], sequence = [65], qualities = Some [73]\<rparr>),
           Inl StopIteration]"
    by (rule parse_loaded_record [OF u(1-8) W, where
          v = "SequenceRecord \<lparr>name = [114], sequence = [65], qualities = Some [73]\<rparr>"])
       (use u(9,10) in \<open>simp_all add: ascii_str_def\<close>)
  with outcomes_3_cong [OF n0] outcomes_3_cong [OF n1] s0 show ?thesis
    by (simp add: parse_def)
qed

theorem missing_final_newline_accepted_witness:
  "concat [[AT, 114, LF], [65, LF, PLUS, LF, 73]] = [AT, 114, LF, 65, LF, PLUS, LF, 73] \<and>
   (1::int) \<le> 4 \<and>
   parse [[AT, 114, LF], [65, LF, PLUS, LF, 73]] (Sequence_class :: unit sequence_class) 4 3 =
     Some [Inr (FirstValue False),
           Inr (SequenceRecord \<lparr>name = [114], sequence = [65], qualities = Some [73]\<rparr>),
           Inl StopIteration]"
  using missing_final_newline_accepted [of "[[AT, 114, LF], [65, LF, PLUS, LF, 73]]" 4]
  by simp

subsection \<open>Round trip\<close>

lemma count_lf_none: "LF \<notin> set xs \<Longrightarrow> count_lf xs = 0"
  by (simp add: count_lf_def)

lemma wire_prefix_newlines:
  assumes lf: "LF \<notin> set nm" "LF \<notin> set sq" "LF \<notin> set ql"
    and n: "n < length (fastq_wire nm sq ql th)"
  shows "count_lf (take n (fastq_wire nm sq ql th)) < 4"
proof -
  define X where "X = [AT] @ nm @ [LF] @ sq @ [LF] @ [PLUS] @ (if th then nm else []) @ [LF] @ ql"
  have W: "fastq_wire nm sq ql th = X @ [LF]" by (simp add: fastq_wire_def X_def)
  have c: "count_lf X = 3"
    using lf by (simp add: X_def count_lf_append count_lf_none) (simp add: count_lf_def)
  from n W have "n \<le> length X" by simp
  then have "take n (fastq_wire nm sq ql th) = take n X" by (simp add: W)
  with count_lf_take_le [of n X] c show ?thesis by simp
qed

lemma roundtrip_core:
  assumes sz: "1 \<le> sz" and f: "concat f = fastq_wire nm sq ql th"
    and lf: "LF \<notin> set nm" "LF \<notin> set sq" "LF \<notin> set ql"
    and cr: "nm = [] \<or> last nm \<noteq> CR" "sq = [] \<or> last sq \<noteq> CR" "ql = [] \<or> last ql \<noteq> CR"
    and len: "length ql = length sq"
    and v: "cls = BytesSequence_class \<and>
              v = BytesRecord \<lparr>bname = nm, bsequence = sq, bqualities = ql\<rparr> \<or>
            cls = Sequence_class \<and>
              string_is_ascii nm \<and> string_is_ascii sq \<and> string_is_ascii ql \<and>
              v = SequenceRecord \<lparr>name = ascii_str nm, sequence = ascii_str sq,
                                   qualities = Some (ascii_str ql)\<rparr>"
  shows "parse f cls sz 3 = Some [Inr (FirstValue (th \<and> nm \<noteq> [])), Inr v, Inl StopIteration]"
proof -
  define W where "W = fastq_wire nm sq ql th"
  from cinit_loading [OF sz, of f cls]
  obtain s0 where s0: "FastqIter_cinit f cls sz = Inr s0"
    and l0: "loading s0 W" and fresh: "number_of_records s0 = 0" "\<not> yielded_two_headers s0"
    and cls: "save_as_bytes s0 = (cls = BytesSequence_class)"
      "use_custom_class s0 = (\<exists>c. cls = Custom_class c)"
    using f by (auto simp: W_def)
  have few: "\<forall>n<length W. count_lf (take n W) < 4"
    unfolding W_def using wire_prefix_newlines [OF lf] by blast
  from load_all [OF l0 few] obtain z b f'
    where n0: "fastq_next s0 = fastq_next (refilled s0 z b f' (length W))"
      and l1: "loading (refilled s0 z b f' (length W)) W" and ex: "concat f' = []"
    by blast
  let ?t = "refilled s0 z b f' (length W)"
  have tk: "take (length W) (buf ?t) = W"
    using l1 ex by (simp add: loading_def refilled_def)
  have t: "\<not> eof ?t" "record_start ?t = 0" "bufend ?t = length W"
    "take (length W) (buf ?t) = W" "length W \<le> length (buf ?t)" "concat (file ?t) = []"
    "number_of_records ?t = 0" "\<not> yielded_two_headers ?t"
    using l1 ex fresh tk by (simp_all add: loading_def refilled_def)
  have tv: "save_as_bytes ?t = (cls = BytesSequence_class)"
    "use_custom_class ?t = (\<exists>c. cls = Custom_class c)"
    using cls by (simp_all add: refilled_def)
  have "outcomes 3 ?t = Some [Inr (FirstValue (th \<and> nm \<noteq> [])), Inr v, Inl StopIteration]"
    by (rule parse_loaded_record [OF t W_def lf cr len]) (use v tv in auto)
  with outcomes_3_cong [OF n0] s0 show ?thesis
    by (simp add: parse_def)
qed

lemma unat_byte_of_nat: "c < 128 \<Longrightarrow> unat (of_nat c :: byte) = c"
  by (simp add: of_nat_inverse)

lemma ascii_roundtrip:
  "PyUnicode_IS_COMPACT_ASCII n \<Longrightarrow> ascii_str (PyUnicode_1BYTE_DATA n) = n"
  by (induction n)
     (simp_all add: PyUnicode_IS_COMPACT_ASCII_def ascii_str_def PyUnicode_1BYTE_DATA_def
        unat_byte_of_nat)

lemma ascii_bytes:
  "PyUnicode_IS_COMPACT_ASCII n \<Longrightarrow> string_is_ascii (PyUnicode_1BYTE_DATA n)"
proof (induction n)
  case Nil
  then show ?case by (simp add: PyUnicode_1BYTE_DATA_def)
next
  case (Cons c n)
  then have c: "c < 128" and n: "PyUnicode_IS_COMPACT_ASCII n"
    by (simp_all add: PyUnicode_IS_COMPACT_ASCII_def)
  have "(of_nat c :: byte) < 128"
    using c by (simp add: word_less_nat_alt unat_byte_of_nat)
  with Cons.IH [OF n] show ?case by (simp add: PyUnicode_1BYTE_DATA_def)
qed

lemma ascii_byte_eq:
  assumes "PyUnicode_IS_COMPACT_ASCII n" "k < 128"
  shows "(of_nat k :: byte) \<in> set (PyUnicode_1BYTE_DATA n) \<longleftrightarrow> k \<in> set n"
proof
  assume "(of_nat k :: byte) \<in> set (PyUnicode_1BYTE_DATA n)"
  then obtain c where c: "c \<in> set n" "(of_nat c :: byte) = of_nat k"
    by (auto simp: PyUnicode_1BYTE_DATA_def)
  with assms(1) have "c < 128" by (simp add: PyUnicode_IS_COMPACT_ASCII_def list_all_iff)
  with c(2) assms(2) have "c = k" by (metis unat_byte_of_nat)
  with c(1) show "k \<in> set n" by simp
next
  assume "k \<in> set n"
  then show "(of_nat k :: byte) \<in> set (PyUnicode_1BYTE_DATA n)"
    by (simp add: PyUnicode_1BYTE_DATA_def)
qed

lemma ascii_last_eq:
  assumes "PyUnicode_IS_COMPACT_ASCII n" "k < 128" "n \<noteq> []" "last n \<noteq> k"
  shows "last (PyUnicode_1BYTE_DATA n) \<noteq> of_nat k"
proof
  assume a: "last (PyUnicode_1BYTE_DATA n) = of_nat k"
  have "last (PyUnicode_1BYTE_DATA n) = of_nat (last n)"
    using assms(3) by (simp add: PyUnicode_1BYTE_DATA_def last_map)
  moreover have "last n < 128"
    using assms(1,3) by (simp add: PyUnicode_IS_COMPACT_ASCII_def list_all_iff)
  ultimately have "last n = k" using a assms(2) by (metis unat_byte_of_nat)
  with assms(4) show False by simp
qed

lemma roundtrip_text:
  assumes sz: "1 \<le> sz"
    and r: "Sequence_init (PyStr n) (PyStr s) (PyStr q) = Inr r"
    and lf: "10 \<notin> set n" "10 \<notin> set s" "10 \<notin> set q"
    and cr: "n = [] \<or> last n \<noteq> 13" "s = [] \<or> last s \<noteq> 13" "q = [] \<or> last q \<noteq> 13"
    and f: "fastq_bytes uninit r two_headers = Inr (concat f)"
  shows "parse f Sequence_class sz 3 =
     Some [Inr (FirstValue (two_headers \<and> n \<noteq> [])), Inr (SequenceRecord r),
           Inl StopIteration]"
proof -
  from r have a: "PyUnicode_IS_COMPACT_ASCII n" "PyUnicode_IS_COMPACT_ASCII s"
    "PyUnicode_IS_COMPACT_ASCII q" and len: "length q = length s"
    and rr: "r = \<lparr>name = n, sequence = s, qualities = Some q\<rparr>"
    by (auto simp: Sequence_init_def split: if_splits)
  let ?nm = "PyUnicode_1BYTE_DATA n" and ?sq = "PyUnicode_1BYTE_DATA s"
    and ?ql = "PyUnicode_1BYTE_DATA q"
  have l: "length ?nm = length n" "length ?sq = length s" "length ?ql = length q"
    by (simp_all add: PyUnicode_1BYTE_DATA_def)
  have "create_fastq_record uninit ?nm ?sq ?ql (length n) (length s) (length q) two_headers
      = fastq_wire ?nm ?sq ?ql two_headers"
    by (rule create_fastq_record_wire) (simp_all add: l)
  with f rr have cf: "concat f = fastq_wire ?nm ?sq ?ql two_headers"
    by (simp add: fastq_bytes_def)
  have lfb: "LF \<notin> set ?nm" "LF \<notin> set ?sq" "LF \<notin> set ?ql"
    using ascii_byte_eq [of _ 10] a lf by simp_all
  have crb: "?nm = [] \<or> last ?nm \<noteq> CR" "?sq = [] \<or> last ?sq \<noteq> CR"
    "?ql = [] \<or> last ?ql \<noteq> CR"
    using ascii_last_eq [of _ 13] a cr by (auto simp: PyUnicode_1BYTE_DATA_def)
  have ne: "?nm \<noteq> [] \<longleftrightarrow> n \<noteq> []" by (simp add: PyUnicode_1BYTE_DATA_def)
  have "parse f Sequence_class sz 3 =
     Some [Inr (FirstValue (two_headers \<and> ?nm \<noteq> [])), Inr (SequenceRecord r),
           Inl StopIteration]"
    by (rule roundtrip_core [OF sz cf lfb crb])
       (simp_all add: l len rr ascii_roundtrip ascii_bytes a)
  then show ?thesis by (simp add: ne)
qed

lemma roundtrip_bytes:
  assumes sz: "1 \<le> sz"
    and r: "BytesSequence_init bn bs bq = Inr br"
    and lf: "LF \<notin> set bn" "LF \<notin> set bs" "LF \<notin> set bq"
    and cr: "bn = [] \<or> last bn \<noteq> CR" "bs = [] \<or> last bs \<noteq> CR" "bq = [] \<or> last bq \<noteq> CR"
    and f: "bytes_fastq_bytes uninit br two_headers = concat f"
  shows "parse f BytesSequence_class sz 3 =
     Some [Inr (FirstValue (two_headers \<and> bn \<noteq> [])), Inr (BytesRecord br),
           Inl StopIteration]"
proof -
  from r have len: "length bq = length bs"
    and rr: "br = \<lparr>bname = bn, bsequence = bs, bqualities = bq\<rparr>"
    by (auto simp: BytesSequence_init_def split: if_splits)
  have "create_fastq_record uninit bn bs bq (length bn) (length bs) (length bq) two_headers
      = fastq_wire bn bs bq two_headers"
    by (rule create_fastq_record_wire) simp_all
  with f rr have cf: "concat f = fastq_wire bn bs bq two_headers"
    by (simp add: bytes_fastq_bytes_def)
  show ?thesis
    by (rule roundtrip_core [OF sz cf lf cr]) (simp_all add: len rr)
qed

text \<open>
  C1, as the code has it. Take a record with qualities as the constructor of its class
  builds it, so that the qualities are as long as the sequence, whose name, sequence and
  qualities hold no line feed and do not end in a carriage return. Serialize it with
  either setting of \<open>two_headers\<close> and give the bytes, in any chunks, to a parser for
  that class with any initial buffer size. The first call returns the leading boolean,
  the second a record equal to the one serialized, and the third raises
  \<open>StopIteration\<close>. Both the textual and the raw variant.
\<close>

theorem serialize_parse_roundtrip:
  assumes "1 \<le> sz"
  shows "(Sequence_init (PyStr n) (PyStr s) (PyStr q) = Inr r \<and>
          10 \<notin> set n \<and> 10 \<notin> set s \<and> 10 \<notin> set q \<and>
          (n = [] \<or> last n \<noteq> 13) \<and> (s = [] \<or> last s \<noteq> 13) \<and> (q = [] \<or> last q \<noteq> 13) \<and>
          fastq_bytes uninit r two_headers = Inr (concat f)
          \<longrightarrow> parse f Sequence_class sz 3 =
                Some [Inr (FirstValue (two_headers \<and> n \<noteq> [])), Inr (SequenceRecord r),
                      Inl StopIteration]) \<and>
         (BytesSequence_init bn bs bq = Inr br \<and>
          LF \<notin> set bn \<and> LF \<notin> set bs \<and> LF \<notin> set bq \<and>
          (bn = [] \<or> last bn \<noteq> CR) \<and> (bs = [] \<or> last bs \<noteq> CR) \<and>
          (bq = [] \<or> last bq \<noteq> CR) \<and>
          bytes_fastq_bytes uninit br two_headers = concat g
          \<longrightarrow> parse g BytesSequence_class sz 3 =
                Some [Inr (FirstValue (two_headers \<and> bn \<noteq> [])), Inr (BytesRecord br),
                      Inl StopIteration])"
  using roundtrip_text [OF assms, of n s q r uninit two_headers f]
    roundtrip_bytes [OF assms, of bn bs bq br uninit two_headers g]
  by blast

theorem serialize_parse_roundtrip_witness:
  "(1::int) \<le> 8 \<and>
   Sequence_init (PyStr [114]) (PyStr [65]) (PyStr [73])
     = Inr \<lparr>name = [114], sequence = [65], qualities = Some [73]\<rparr> \<and>
   fastq_bytes zeroed \<lparr>name = [114], sequence = [65], qualities = Some [73]\<rparr> True
     = Inr (concat [[AT, 114, LF, 65, LF], [PLUS, 114, LF, 73, LF]]) \<and>
   parse [[AT, 114, LF, 65, LF], [PLUS, 114, LF, 73, LF]]
       (Sequence_class :: unit sequence_class) 8 3
     = Some [Inr (FirstValue True),
             Inr (SequenceRecord \<lparr>name = [114], sequence = [65], qualities = Some [73]\<rparr>),
             Inl StopIteration] \<and>
   BytesSequence_init [114] [65] [73]
     = Inr \<lparr>bname = [114], bsequence = [65], bqualities = [73]\<rparr> \<and>
   bytes_fastq_bytes zeroed \<lparr>bname = [114], bsequence = [65], bqualities = [73]\<rparr> True
     = concat [[AT, 114, LF, 65], [LF, PLUS, 114, LF, 73, LF]] \<and>
   parse [[AT, 114, LF, 65], [LF, PLUS, 114, LF, 73, LF]]
       (BytesSequence_class :: unit sequence_class) 8 3
     = Some [Inr (FirstValue True),
             Inr (BytesRecord \<lparr>bname = [114], bsequence = [65], bqualities = [73]\<rparr>),
             Inl StopIteration]"
proof -
  have a: "Sequence_init (PyStr [114]) (PyStr [65]) (PyStr [73])
     = Inr \<lparr>name = [114], sequence = [65], qualities = Some [73]\<rparr>"
    by (simp add: Sequence_init_def PyUnicode_IS_COMPACT_ASCII_def)
  have b: "fastq_bytes zeroed \<lparr>name = [114], sequence = [65], qualities = Some [73]\<rparr> True
     = Inr (concat [[AT, 114, LF, 65, LF], [PLUS, 114, LF, 73, LF]])"
    by code_simp
  have c: "BytesSequence_init [114] [65] [73]
     = Inr \<lparr>bname = [114], bsequence = [65], bqualities = [73]\<rparr>"
    by (simp add: BytesSequence_init_def)
  have d: "bytes_fastq_bytes zeroed \<lparr>bname = [114], bsequence = [65], bqualities = [73]\<rparr> True
     = concat [[AT, 114, LF, 65], [LF, PLUS, 114, LF, 73, LF]]"
    by code_simp
  have e: "(1::int) \<le> 8" by simp
  from serialize_parse_roundtrip [OF e, where n = "[114]" and s = "[65]" and q = "[73]"
      and r = "\<lparr>name = [114], sequence = [65], qualities = Some [73]\<rparr>"
      and uninit = zeroed and two_headers = True
      and f = "[[AT, 114, LF, 65, LF], [PLUS, 114, LF, 73, LF]]"
      and bn = "[114]" and bs = "[65]" and bq = "[73]"
      and br = "\<lparr>bname = [114], bsequence = [65], bqualities = [73]\<rparr>"
      and g = "[[AT, 114, LF, 65], [LF, PLUS, 114, LF, 73, LF]]"] a b c d
  show ?thesis by simp
qed

text \<open>
  Each condition is needed. A record whose sequence was replaced through the setter, so
  that its lengths differ, serializes to bytes that the parser refuses; so does a record
  with a line feed in its sequence.
\<close>

lemma roundtrip_needs_equal_lengths:
  "set_sequence \<lparr>name = [114], sequence = [65], qualities = Some [73]\<rparr> (PyStr [65, 67])
     = Inr \<lparr>name = [114], sequence = [65, 67], qualities = Some [73]\<rparr> \<and>
   fastq_bytes zeroed \<lparr>name = [114], sequence = [65, 67], qualities = Some [73]\<rparr> False
     = Inr [AT, 114, LF, 65, 67, LF, PLUS, LF, 73, LF] \<and>
   parse [[AT, 114, LF, 65, 67, LF, PLUS, LF, 73, LF]] (Sequence_class :: unit sequence_class) 16 1
     = Some [Inl (FastqFormatError LengthsDiffer 3)]"
  by code_simp

lemma roundtrip_needs_no_line_feed:
  "Sequence_init (PyStr [114]) (PyStr [65, 10, 67]) (PyStr [73, 73, 73])
     = Inr \<lparr>name = [114], sequence = [65, 10, 67], qualities = Some [73, 73, 73]\<rparr> \<and>
   fastq_bytes zeroed \<lparr>name = [114], sequence = [65, 10, 67], qualities = Some [73, 73, 73]\<rparr>
       False
     = Inr [AT, 114, LF, 65, LF, 67, LF, PLUS, LF, 73, 73, 73, LF] \<and>
   parse [[AT, 114, LF, 65, LF, 67, LF, PLUS, LF, 73, 73, 73, LF]]
     (Sequence_class :: unit sequence_class) 16 1
     = Some [Inl (FastqFormatError (ExpectedPlus [67]) 2)]"
  by code_simp

text \<open>
  A record that the constructor accepts and that does not survive the round trip: its
  sequence and qualities are a single carriage return, which the parser takes for the
  end of a CRLF line and strips.
\<close>

theorem roundtrip_strips_carriage_return:
  "Sequence_init (PyStr [114]) (PyStr [13]) (PyStr [13])
     = Inr \<lparr>name = [114], sequence = [13], qualities = Some [13]\<rparr> \<and>
   fastq_bytes zeroed \<lparr>name = [114], sequence = [13], qualities = Some [13]\<rparr> False
     = Inr [AT, 114, LF, CR, LF, PLUS, LF, CR, LF] \<and>
   parse [[AT, 114, LF, CR, LF, PLUS, LF, CR, LF]] (Sequence_class :: unit sequence_class) 16 3
     = Some [Inr (FirstValue False),
             Inr (SequenceRecord \<lparr>name = [114], sequence = [], qualities = Some []\<rparr>),
             Inl StopIteration]"
  by code_simp

subsection \<open>The cursors stay in range\<close>

lemma cinit_cursors_ok: "FastqIter_cinit f cls sz = Inr s \<Longrightarrow> cursors_ok s"
  by (auto simp: FastqIter_cinit_def cursors_ok_def split: if_splits)

lemma make_room_cursors_ok:
  assumes "cursors_ok s" "make_room s = (s1, bufstart)"
  shows "length (buf s1) = buffer_size s1 \<and> 0 < buffer_size s1 \<and> bufstart \<le> length (buf s1)"
proof (cases "record_start s = 0 \<and> bufend s = length (buf s)")
  case True
  with assms show ?thesis
    by (auto simp: make_room_def Let_def cursors_ok_def slice_assign_def)
next
  case False
  with assms(2) have s1: "s1 = s\<lparr>buf := slice_assign (buf s) 0 (bufend s - record_start s)
        (py_slice (buf s) (record_start s) (bufend s))\<rparr>"
    and bs: "bufstart = bufend s - record_start s"
    by (auto simp: make_room_def Let_def)
  have "length (py_slice (buf s) (record_start s) (bufend s)) = bufend s - record_start s"
    using assms(1) by (auto simp: py_slice_def cursors_ok_def)
  then have "length (buf s1) = length (buf s)"
    using assms(1) by (simp add: s1 slice_assign_def cursors_ok_def)
  with assms(1) s1 bs show ?thesis by (auto simp: cursors_ok_def)
qed

lemma fill_from_file_cursors_ok:
  assumes "length (buf s) = buffer_size s" "bufstart \<le> length (buf s)"
  shows "length (buf (fill_from_file s bufstart)) = buffer_size (fill_from_file s bufstart) \<and>
         bufstart \<le> bufend (fill_from_file s bufstart) \<and>
         bufend (fill_from_file s bufstart) \<le> length (buf (fill_from_file s bufstart))"
proof -
  obtain d f' where rd: "readinto (file s) (length (buf s) - bufstart) = (d, f')"
    by (cases "readinto (file s) (length (buf s) - bufstart)")
  from readinto_length [OF rd] assms(2) have "bufstart + length d \<le> length (buf s)" by simp
  then show ?thesis
    using assms by (simp add: fill_from_file_eq [OF rd] length_slice_assign)
qed

lemma read_into_buffer_cursors_ok:
  assumes ok: "cursors_ok s" and run: "read_into_buffer s = (None, s')"
  shows "cursors_ok s'"
proof -
  obtain s1 bufstart where mr: "make_room s = (s1, bufstart)" by (cases "make_room s")
  note a = make_room_cursors_ok [OF ok mr]
  let ?s2 = "fill_from_file s1 bufstart"
  from a have b: "length (buf ?s2) = buffer_size ?s2" "bufstart \<le> bufend ?s2"
    "bufend ?s2 \<le> length (buf ?s2)"
    using fill_from_file_cursors_ok [of s1 bufstart] by simp_all
  have z: "buffer_size ?s2 = buffer_size s1" by (simp add: fill_from_file_def split_beta)
  show ?thesis
  proof (cases "bufstart < length (buf s1)")
    case False
    with run mr show ?thesis by (simp add: read_into_buffer_def)
  next
    case lt: True
    show ?thesis
    proof (cases "bufstart = bufend ?s2")
      case False
      with run mr lt have "s' = ?s2\<lparr>record_start := 0\<rparr>"
        by (simp add: read_into_buffer_def Let_def)
      with a b z show ?thesis by (simp add: cursors_ok_def)
    next
      case True
      with run mr lt have e: "end_of_file ?s2 bufstart (bufend s) = (None, s')"
        by (simp add: read_into_buffer_def Let_def)
      have "length (buf ?s2) = length (buf s1)" using a b z by simp
      with lt True have "bufend ?s2 < length (buf ?s2)" by simp
      with e a b z show ?thesis
        by (auto simp: end_of_file_def cursors_ok_def Let_def split: if_splits)
    qed
  qed
qed

lemma four_newlines_bound:
  assumes "four_newlines b st e = Some (p1, p2, p3, p4)"
  shows "st \<le> p1 \<and> p1 < p2 \<and> p2 < p3 \<and> p3 < p4 \<and> p4 < e"
proof -
  from assms have m: "memchr b st LF (e - st) = Some p1"
    "memchr b (p1 + 1) LF (e - (p1 + 1)) = Some p2"
    "memchr b (p2 + 1) LF (e - (p2 + 1)) = Some p3"
    "memchr b (p3 + 1) LF (e - (p3 + 1)) = Some p4"
    by (auto simp: four_newlines_def split: option.splits)
  note f1 = memchr_Some [OF m(1)] and f2 = memchr_Some [OF m(2)]
    and f3 = memchr_Some [OF m(3)] and f4 = memchr_Some [OF m(4)]
  from f1 f2 f3 f4 show ?thesis by linarith
qed

lemma emit_record_cursors_ok:
  assumes "cursors_ok s" "p4 < bufend s" "emit_record s p1 p2 p3 p4 = (r, s')"
  shows "cursors_ok s'"
  using assms by (cases rule: emit_record_cases [of s p1 p2 p3 p4]) (auto simp: cursors_ok_def)

text \<open>
  A call of \<open>__next__\<close> that returns a value leaves the cursors in range; so they are in
  range in every object reached from the constructor through such calls.
\<close>

lemma fastq_next_cursors_ok:
  assumes "fastq_next s = Some (Inr v, s')" and "cursors_ok s"
  shows "cursors_ok s'"
proof -
  have "cursors_ok s \<longrightarrow> (\<forall>v s'. y = (Inr v, s') \<longrightarrow> cursors_ok s')"
    if "fastq_next s = Some y" for y
    using that
  proof (induction rule: fastq_next_induct)
    case (stop s)
    show ?case by simp
  next
    case (emit s a b c d)
    from four_newlines_bound [OF emit(2)] have "d < bufend s" by simp
    then show ?case using emit_record_cursors_ok [of s d a b c] by blast
  next
    case (error s e s')
    show ?case by simp
  next
    case (more s s' y)
    from read_into_buffer_cursors_ok [OF _ more(3)] more(4) show ?case by blast
  qed
  with assms show ?thesis by blast
qed

text \<open>
  In the body of \<open>__next__\<close>, behind the checks for \<open>@\<close> and \<open>+\<close>, the four lengths
  are differences of positions that are in order, also where a carriage return takes one
  more byte off.
\<close>

lemma lengths_not_cut_off:
  assumes four: "four_newlines b rs e = Some (p1, p2, p3, p4)"
    and at: "b ! rs = AT" and plus: "b ! (p2 + 1) = PLUS"
  shows "rs + 1 \<le> p1 \<and> p1 + 1 \<le> p2 \<and> p2 + 1 + 1 \<le> p3 \<and> p3 + 1 \<le> p4 \<and>
         (b ! (p1 - 1) = CR \<longrightarrow> rs + 1 < p1) \<and>
         (b ! (p2 - 1) = CR \<longrightarrow> p1 + 1 < p2) \<and>
         (b ! (p3 - 1) = CR \<longrightarrow> p2 + 1 + 1 < p3) \<and>
         (b ! (p4 - 1) = CR \<longrightarrow> p3 + 1 < p4)"
proof -
  from four have m: "memchr b rs LF (e - rs) = Some p1"
    "memchr b (p1 + 1) LF (e - (p1 + 1)) = Some p2"
    "memchr b (p2 + 1) LF (e - (p2 + 1)) = Some p3"
    "memchr b (p3 + 1) LF (e - (p3 + 1)) = Some p4"
    by (auto simp: four_newlines_def split: option.splits)
  note f1 = memchr_Some [OF m(1)] and f2 = memchr_Some [OF m(2)]
    and f3 = memchr_Some [OF m(3)] and f4 = memchr_Some [OF m(4)]
  have lf: "b ! p1 = LF" "b ! p2 = LF" "b ! p3 = LF" "b ! p4 = LF"
    using f1 f2 f3 f4 by simp_all
  have le: "rs \<le> p1" "p1 + 1 \<le> p2" "p2 + 1 \<le> p3" "p3 + 1 \<le> p4"
    using f1 f2 f3 f4 by simp_all
  have n1: "rs \<noteq> p1" using at lf(1) by auto
  have n3: "p2 + 1 \<noteq> p3" using plus lf(3) by auto
  have c1: "b ! (p1 - 1) = CR \<longrightarrow> rs + 1 \<noteq> p1" using at by auto
  have c2: "b ! (p2 - 1) = CR \<longrightarrow> p1 + 1 \<noteq> p2" using lf(1) by auto
  have c3: "b ! (p3 - 1) = CR \<longrightarrow> p2 + 1 + 1 \<noteq> p3" using plus by auto
  have c4: "b ! (p4 - 1) = CR \<longrightarrow> p3 + 1 \<noteq> p4" using lf(3) by auto
  have a: "rs + 1 \<le> p1 \<and> p1 + 1 \<le> p2 \<and> p2 + 1 + 1 \<le> p3 \<and> p3 + 1 \<le> p4"
    using le n1 n3 by linarith
  have b1: "b ! (p1 - 1) = CR \<longrightarrow> rs + 1 < p1" using a c1 by linarith
  have b2: "b ! (p2 - 1) = CR \<longrightarrow> p1 + 1 < p2" using a c2 by linarith
  have b3: "b ! (p3 - 1) = CR \<longrightarrow> p2 + 1 + 1 < p3" using a c3 by linarith
  have b4: "b ! (p4 - 1) = CR \<longrightarrow> p3 + 1 < p4" using a c4 by linarith
  from a b1 b2 b3 b4 show ?thesis by blast
qed

end
